theory Spec2Isabelle
  imports Complex_Main "HOL-Library.Multiset"
begin

section \<open>ModelTester: accumulation over a dataset\<close>

text \<open>
  The numpy arrays of \<^verbatim>\<open>ModelTester\<close> and \<^verbatim>\<open>Analyzer\<close> hold object counts
  (they only ever receive \<^verbatim>\<open>+= 1\<close> and sums of such arrays), so the counting arrays are
  lists of naturals. The arrays of shape \<^verbatim>\<open>(1,n)\<close> are read and written at \<^verbatim>\<open>[0][j]\<close>
  only and are modelled by their single row. The quotient \<^verbatim>\<open>C/norm\<close> of two float64
  counts is a parameter \<open>fdiv\<close> of the model, with results in a type \<open>'q\<close> whose \<open>0\<close>
  is the \<^verbatim>\<open>0.0\<close> of \<^verbatim>\<open>np.zeros\<close>.
\<close>

record 'q analyzer =
  confusion_matrix :: "nat list list"
  confusion_matrix_norm :: "'q list list"
  purity_sample :: "'q list"
  nobjs_true_sample :: "nat list"
  nobjs_det_sample :: "nat list"
  nobjs_det_right_sample :: "nat list"

record 'q tester =
  n_classes :: nat
  n_max_img :: int
  classification_matrix :: "nat list list"
  classification_matrix_norm :: "'q list list"
  purity :: "'q list"
  nobjs_true :: "nat list"
  nobjs_det :: "nat list"
  nobjs_det_right :: "nat list"

text \<open>\<^verbatim>\<open>np.zeros((n,n))\<close> and \<^verbatim>\<open>np.zeros((1,n))\<close>.\<close>

definition zeros2 :: "nat \<Rightarrow> nat \<Rightarrow> ('a::zero) list list" where
  "zeros2 h w = replicate h (replicate w 0)"

definition zeros1 :: "nat \<Rightarrow> ('a::zero) list" where
  "zeros1 n = replicate n 0"

text \<open>\<^verbatim>\<open>ModelTester.__init__\<close>: no cap (\<open>-1\<close>) and all results zero.\<close>

definition ModelTester_init :: "nat \<Rightarrow> ('q::zero) tester" where
  "ModelTester_init n =
     \<lparr> n_classes = n, n_max_img = - 1,
       classification_matrix = zeros2 n n,
       classification_matrix_norm = zeros2 n n,
       purity = zeros1 n,
       nobjs_true = zeros1 n,
       nobjs_det = zeros1 n,
       nobjs_det_right = zeros1 n \<rparr>"

text \<open>Elementwise \<^verbatim>\<open>+=\<close> of two arrays of one shape.\<close>

definition vec_add :: "nat list \<Rightarrow> nat list \<Rightarrow> nat list" where
  "vec_add xs ys = map2 (+) xs ys"

definition mat_add :: "nat list list \<Rightarrow> nat list list \<Rightarrow> nat list list" where
  "mat_add xs ys = map2 vec_add xs ys"

definition update_performances :: "'q tester \<Rightarrow> 'q analyzer \<Rightarrow> 'q tester" where
  "update_performances t a =
     (let C_sample = confusion_matrix a;
          nobjs_true_s = nobjs_true_sample a;
          nobjs_det_s = nobjs_det_sample a;
          nobjs_det_right_s = nobjs_det_right_sample a
      in t \<lparr> classification_matrix := mat_add (classification_matrix t) C_sample,
             nobjs_true := vec_add (nobjs_true t) nobjs_true_s,
             nobjs_det := vec_add (nobjs_det t) nobjs_det_s,
             nobjs_det_right := vec_add (nobjs_det_right t) nobjs_det_right_s \<rparr>)"

text \<open>
  The two loops of \<^verbatim>\<open>compute_performances\<close>. A row whose norm is \<open>\<le> 0\<close> is skipped
  (\<^verbatim>\<open>continue\<close>), so it keeps what it held before.
\<close>

definition normalize_row :: "(nat \<Rightarrow> nat \<Rightarrow> 'q) \<Rightarrow> nat \<Rightarrow> nat list \<Rightarrow> nat \<Rightarrow> 'q list \<Rightarrow> 'q list" where
  "normalize_row fdiv n Crow nrm Nrow =
     fold (\<lambda>j row. row[j := fdiv (Crow ! j) nrm]) [0..<n] Nrow"

definition normalize_matrix ::
  "(nat \<Rightarrow> nat \<Rightarrow> 'q) \<Rightarrow> nat \<Rightarrow> nat list list \<Rightarrow> nat list \<Rightarrow> 'q list list \<Rightarrow> 'q list list" where
  "normalize_matrix fdiv n C T N =
     fold (\<lambda>i N. let nrm = T ! i in
                  if nrm \<le> 0 then N
                  else N[i := normalize_row fdiv n (C ! i) nrm (N ! i)]) [0..<n] N"

definition compute_purity ::
  "(nat \<Rightarrow> nat \<Rightarrow> 'q) \<Rightarrow> nat \<Rightarrow> nat list \<Rightarrow> nat list \<Rightarrow> 'q list \<Rightarrow> 'q list" where
  "compute_purity fdiv n R D P =
     fold (\<lambda>j P. if D ! j \<le> 0 then P else P[j := fdiv (R ! j) (D ! j)]) [0..<n] P"

definition compute_performances :: "(nat \<Rightarrow> nat \<Rightarrow> 'q) \<Rightarrow> 'q tester \<Rightarrow> 'q tester" where
  "compute_performances fdiv t =
     t \<lparr> classification_matrix_norm :=
           normalize_matrix fdiv (n_classes t) (classification_matrix t) (nobjs_true t)
             (classification_matrix_norm t),
         purity :=
           compute_purity fdiv (n_classes t) (nobjs_det_right t) (nobjs_det t) (purity t) \<rparr>"

text \<open>
  \<^verbatim>\<open>ModelTester.test\<close>. \<open>inspect_results\<close> stands for building an \<^verbatim>\<open>Analyzer\<close> and
  calling its \<^verbatim>\<open>inspect_results\<close> on one image: it gives the returned status and the
  analyzer with its per-image results, or \<open>None\<close> when the call raises, which ends
  \<^verbatim>\<open>test\<close> as well (there is no \<^verbatim>\<open>try\<close>). The loop counter \<open>nimg\<close> is incremented
  first, the cap is tested next (\<^verbatim>\<open>break\<close>), and a negative status skips the update
  (\<^verbatim>\<open>continue\<close>).
\<close>

fun test_loop ::
  "('img \<Rightarrow> (int \<times> 'q analyzer) option) \<Rightarrow> 'img list \<Rightarrow> int \<Rightarrow> 'q tester \<Rightarrow> 'q tester option" where
  "test_loop inspect_results [] nimg t = Some t"
| "test_loop inspect_results (image_id # rest) nimg t =
     (let nimg' = nimg + 1 in
      if n_max_img t > 0 \<and> nimg' \<ge> n_max_img t then Some t
      else (case inspect_results image_id of
              None \<Rightarrow> None
            | Some (status, a) \<Rightarrow>
                if status < 0 then test_loop inspect_results rest nimg' t
                else test_loop inspect_results rest nimg' (update_performances t a)))"

definition test ::
  "(nat \<Rightarrow> nat \<Rightarrow> 'q) \<Rightarrow> ('img \<Rightarrow> (int \<times> 'q analyzer) option) \<Rightarrow> 'img list \<Rightarrow> 'q tester
     \<Rightarrow> (int \<times> 'q tester) option" where
  "test fdiv inspect_results image_ids t =
     (case test_loop inspect_results image_ids 0 t of
        None \<Rightarrow> None
      | Some t' \<Rightarrow> Some (0, compute_performances fdiv t'))"

text \<open>
  The images of a pass that reach \<^verbatim>\<open>inspect_results\<close>: all of them without a cap, and
  those before the \<open>n_max_img\<close>-th with one.
\<close>

definition inspected_images :: "int \<Rightarrow> 'img list \<Rightarrow> 'img list" where
  "inspected_images m image_ids = (if m > 0 then take (nat (m - 1)) image_ids else image_ids)"

text \<open>The analyzers of the inspected images that are not skipped for a negative status.\<close>

definition contributions :: "(int \<times> 'q analyzer) list \<Rightarrow> 'q analyzer list" where
  "contributions rs = map snd (filter (\<lambda>r. \<not> fst r < 0) rs)"

text \<open>
  The results of an analyzer for one class, on an image with \<open>k\<close> true objects that are all
  detected; the fields that \<^verbatim>\<open>update_performances\<close> does not read are zero.
\<close>

definition one_class_analyzer :: "nat \<Rightarrow> real analyzer" where
  "one_class_analyzer k =
     \<lparr> confusion_matrix = [[k]], confusion_matrix_norm = [[0]], purity_sample = [0],
       nobjs_true_sample = [k], nobjs_det_sample = [k], nobjs_det_right_sample = [k] \<rparr>"

section \<open>Masks and connected components\<close>

text \<open>
  A mask is a 2-D array, a list of rows of pixel values. Detector masks hold \<open>0\<close> and \<open>1\<close>;
  a raw ground-truth mask holds small class values. All masks of one image are slices
  \<^verbatim>\<open>[:,:,k]\<close> of one array, so they have one shape.
\<close>

type_synonym mask = "int list list"
type_synonym pixel = "nat \<times> nat"

definition pix :: "'a list list \<Rightarrow> pixel \<Rightarrow> 'a" where
  "pix m p = m ! fst p ! snd p"

text \<open>The coordinates of an array in row-major order.\<close>

definition pixels :: "'a list list \<Rightarrow> pixel list" where
  "pixels m = concat (map (\<lambda>r. map (Pair r) [0..<length (m ! r)]) [0..<length m])"

definition same_shape :: "'a list list \<Rightarrow> 'b list list \<Rightarrow> bool" where
  "same_shape m1 m2 \<longleftrightarrow> map length m1 = map length m2"

definition binary_mask :: "mask \<Rightarrow> bool" where
  "binary_mask m \<longleftrightarrow> list_all (list_all (\<lambda>v. v = 0 \<or> v = 1)) m"

definition nonneg_mask :: "mask \<Rightarrow> bool" where
  "nonneg_mask m \<longleftrightarrow> list_all (list_all (\<lambda>v. 0 \<le> v)) m"

text \<open>
  Modelled from the spec: \<^verbatim>\<open>skimage.measure.label(mask, background=0, return_num=True,
  connectivity=1)\<close> is a library call, so the labelling itself is not in the source. Pixels
  of value \<open>0\<close> are background; two foreground pixels are connected when they are
  neighbours along a row or a column (not diagonals); background is labelled \<open>0\<close> and the
  components \<open>1..count\<close>; the number of components is returned with the array of labels.
  On an array that holds other values than \<open>0\<close> and \<open>1\<close> the library joins only
  neighbours of equal value, which is kept here, and it numbers the components in the
  order in which a row-major scan meets them.
\<close>

definition foreground :: "mask \<Rightarrow> pixel list" where
  "foreground m = filter (\<lambda>p. pix m p \<noteq> 0) (pixels m)"

definition adjacent :: "pixel \<Rightarrow> pixel \<Rightarrow> bool" where
  "adjacent p q \<longleftrightarrow>
     (fst p = fst q \<and> (snd p = Suc (snd q) \<or> snd q = Suc (snd p))) \<or>
     (snd p = snd q \<and> (fst p = Suc (fst q) \<or> fst q = Suc (fst p)))"

definition links :: "mask \<Rightarrow> (pixel \<times> pixel) list" where
  "links m = filter (\<lambda>(p, q). adjacent p q \<and> pix m p = pix m q)
               (List.product (foreground m) (foreground m))"

definition region :: "mask \<Rightarrow> pixel \<Rightarrow> pixel set" where
  "region m p = insert p ((set (links m))\<^sup>+ `` {p})"

definition regions :: "mask \<Rightarrow> pixel set list" where
  "regions m = rev (remdups (rev (map (region m) (foreground m))))"

definition num_components :: "mask \<Rightarrow> nat" where
  "num_components m = length (regions m)"

fun index_of :: "'a \<Rightarrow> 'a list \<Rightarrow> nat" where
  "index_of x [] = 0"
| "index_of x (y # ys) = (if x = y then 0 else Suc (index_of x ys))"

definition label_at :: "mask \<Rightarrow> pixel \<Rightarrow> nat" where
  "label_at m p = (if pix m p = 0 then 0 else Suc (index_of (region m p) (regions m)))"

definition label_array :: "mask \<Rightarrow> nat list list" where
  "label_array m = map (\<lambda>r. map (\<lambda>c. label_at m (r, c)) [0..<length (m ! r)]) [0..<length m]"

definition extract_mask_connected_components :: "mask \<Rightarrow> nat list list \<times> nat" where
  "extract_mask_connected_components m = (label_array m, num_components m)"

text \<open>\<^verbatim>\<open>merge_masks\<close>: the elementwise sum, with every value above \<open>1\<close> set to \<open>1\<close>.\<close>

definition merge_pixels :: "int \<Rightarrow> int \<Rightarrow> int" where
  "merge_pixels a b = (let s = a + b in if s > 1 then 1 else s)"

definition merge_masks :: "mask \<Rightarrow> mask \<Rightarrow> mask" where
  "merge_masks mask1 mask2 = map2 (map2 merge_pixels) mask1 mask2"

definition are_mask_connected :: "mask \<Rightarrow> mask \<Rightarrow> bool" where
  "are_mask_connected mask1 mask2 =
     (case extract_mask_connected_components mask1 of (labels1, ncomponents1) \<Rightarrow>
      case extract_mask_connected_components mask2 of (labels2, ncomponents2) \<Rightarrow>
      let m = merge_masks mask1 mask2 in
      case extract_mask_connected_components m of (labels, ncomponents) \<Rightarrow>
        if ncomponents = ncomponents1 + ncomponents2 then False else True)"

text \<open>
  Two masks are apart when no pixel is foreground in both and no foreground pixel of one
  is a neighbour of a foreground pixel of the other.
\<close>

definition apart :: "mask \<Rightarrow> mask \<Rightarrow> bool" where
  "apart m1 m2 \<longleftrightarrow>
     list_all (\<lambda>p. list_all (\<lambda>q. p \<noteq> q \<and> \<not> adjacent p q) (foreground m2)) (foreground m1)"

section \<open>Analyzer: regions, groups and final instances\<close>

text \<open>
  The lists \<^verbatim>\<open>masks_x\<close>, \<^verbatim>\<open>class_ids_x\<close> and \<^verbatim>\<open>scores_x\<close> of the source are always
  appended to together, so each family is one list of tuples here. Scores and IoU values
  are floats; they are real numbers here, which keeps every comparison and leaves out the
  rounding of float64 in the mean score of a merged group. A list read
  at an index it does not have raises \<^verbatim>\<open>IndexError\<close>: the result is \<open>None\<close>. An index that
  may be negative counts from the end, as in Python.
\<close>

type_synonym gt_region = "mask \<times> int"
type_synonym det_region = "mask \<times> int \<times> real"

definition nth_opt :: "'a list \<Rightarrow> nat \<Rightarrow> 'a option" where
  "nth_opt xs i = (if i < length xs then Some (xs ! i) else None)"

definition py_index :: "nat \<Rightarrow> int \<Rightarrow> nat option" where
  "py_index n i =
     (if 0 \<le> i \<and> i < int n then Some (nat i)
      else if - int n \<le> i \<and> i < 0 then Some (nat (int n + i))
      else None)"

definition py_nth :: "'a list \<Rightarrow> int \<Rightarrow> 'a option" where
  "py_nth xs i = map_option (nth xs) (py_index (length xs) i)"

fun fold_opt :: "('a \<Rightarrow> 's \<Rightarrow> 's option) \<Rightarrow> 'a list \<Rightarrow> 's \<Rightarrow> 's option" where
  "fold_opt f [] s = Some s"
| "fold_opt f (x # xs) s = (case f x s of None \<Rightarrow> None | Some s' \<Rightarrow> fold_opt f xs s')"

subsection \<open>Splitting a mask into its components\<close>

text \<open>
  \<^verbatim>\<open>np.where(a == v)\<close> gives the coordinates where \<open>a\<close> holds \<open>v\<close>, in row-major order;
  \<^verbatim>\<open>extracted_mask[mask_indices] = 1\<close> writes \<open>1\<close> there into a zero array of the shape of
  the mask; \<^verbatim>\<open>np.where(a == v, [1], [0])\<close> is the array that holds \<open>1\<close> where \<open>a\<close> holds
  \<open>v\<close> and \<open>0\<close> elsewhere.
\<close>

definition where_indices :: "nat list list \<Rightarrow> nat \<Rightarrow> pixel list" where
  "where_indices a v = filter (\<lambda>p. pix a p = v) (pixels a)"

definition ones_at :: "mask \<Rightarrow> pixel list \<Rightarrow> mask" where
  "ones_at m idx =
     map (\<lambda>r. map (\<lambda>c. if (r, c) \<in> set idx then 1 else 0) [0..<length (m ! r)]) [0..<length m]"

definition where_mask :: "nat list list \<Rightarrow> nat \<Rightarrow> mask" where
  "where_mask a v = map (map (\<lambda>l. if l = v then 1 else 0)) a"

text \<open>
  The loop over the components of one ground-truth mask (\<^verbatim>\<open>extract_gt_masks\<close>). Every
  iteration reads \<^verbatim>\<open>np.where(component_labels_gt==1)\<close>; the class is the value of the raw
  mask at the first of these coordinates.
\<close>

fun split_gt_loop ::
  "mask \<Rightarrow> nat list list \<Rightarrow> nat list \<Rightarrow> gt_region list \<Rightarrow> gt_region list option" where
  "split_gt_loop mask_gt component_labels_gt [] acc = Some acc"
| "split_gt_loop mask_gt component_labels_gt (i # rest) acc =
     (let mask_indices = where_indices component_labels_gt 1;
          extracted_mask = ones_at mask_gt mask_indices
      in case mask_indices of
           [] \<Rightarrow> None
         | p # _ \<Rightarrow>
             (let object_classid = pix mask_gt p
              in split_gt_loop mask_gt component_labels_gt rest
                   (acc @ [(extracted_mask, object_classid)])))"

definition split_gt_mask :: "mask \<Rightarrow> gt_region list option" where
  "split_gt_mask mask_gt =
     (case extract_mask_connected_components mask_gt of
        (component_labels_gt, ncomponents_gt) \<Rightarrow>
          split_gt_loop mask_gt component_labels_gt [0..<ncomponents_gt] [])"

fun gt_regions_loop :: "string \<Rightarrow> int \<Rightarrow> mask list \<Rightarrow> gt_region list \<Rightarrow> gt_region list option" where
  "gt_regions_loop label_gt class_id_gt [] acc = Some acc"
| "gt_regions_loop label_gt class_id_gt (mask_gt # rest) acc =
     (if label_gt = ''galaxy_C2'' \<or> label_gt = ''galaxy_C3''
      then gt_regions_loop label_gt class_id_gt rest (acc @ [(mask_gt, class_id_gt)])
      else (case split_gt_mask mask_gt of
              None \<Rightarrow> None
            | Some rs \<Rightarrow> gt_regions_loop label_gt class_id_gt rest (acc @ rs)))"

text \<open>The loop over the components of one detected mask (\<^verbatim>\<open>extract_det_masks\<close>).\<close>

definition split_det_mask :: "mask \<Rightarrow> int \<Rightarrow> real \<Rightarrow> det_region list" where
  "split_det_mask m class_id score =
     (case extract_mask_connected_components m of
        (component_labels, ncomponents) \<Rightarrow>
          map (\<lambda>i. (where_mask component_labels (i + 1), class_id, score)) [0..<ncomponents])"

text \<open>The selection by score, and the loop over the sorted selection.\<close>

fun select_loop ::
  "string list \<Rightarrow> real \<Rightarrow> det_region list \<Rightarrow> det_region list \<Rightarrow> det_region list option" where
  "select_loop class_names score_thr [] acc = Some acc"
| "select_loop class_names score_thr ((m, class_id, score) # rest) acc =
     (case py_nth class_names class_id of
        None \<Rightarrow> None
      | Some label \<Rightarrow>
          if score < score_thr then select_loop class_names score_thr rest acc
          else select_loop class_names score_thr rest (acc @ [(m, class_id, score)]))"

fun split_det_loop ::
  "string list \<Rightarrow> det_region list \<Rightarrow> int list \<Rightarrow> det_region list \<Rightarrow> det_region list option" where
  "split_det_loop class_names sel [] acc = Some acc"
| "split_det_loop class_names sel (index # rest) acc =
     (case py_nth sel index of
        None \<Rightarrow> None
      | Some (m, class_id, score) \<Rightarrow>
          (case py_nth class_names class_id of
             None \<Rightarrow> None
           | Some label \<Rightarrow>
               if label = ''galaxy_C2'' \<or> label = ''galaxy_C3''
               then split_det_loop class_names sel rest (acc @ [(m, class_id, score)])
               else split_det_loop class_names sel rest (acc @ split_det_mask m class_id score)))"

subsection \<open>The graphs over regions\<close>

text \<open>
  The edges handed to \<^verbatim>\<open>addEdge\<close>, in the order of the two nested loops. The first
  graph (ground truth, and first pass over detections) joins two regions that are
  connected and of one class; the graph of the second pass joins two instances that are
  connected.
\<close>

definition class_edges :: "mask list \<Rightarrow> int list \<Rightarrow> (nat \<times> nat) list" where
  "class_edges masks class_ids =
     concat (map (\<lambda>i. concat (map (\<lambda>j.
        (let connected = are_mask_connected (masks ! i) (masks ! j);
             same_class = (class_ids ! i = class_ids ! j);
             mergeable = (connected \<and> same_class)
         in if mergeable then [(i, j)] else [])) [i + 1..<length masks])) [0..<length masks])"

definition final_edges :: "mask list \<Rightarrow> int list \<Rightarrow> (nat \<times> nat) list" where
  "final_edges masks class_ids =
     concat (map (\<lambda>i. concat (map (\<lambda>j.
        (let connected = are_mask_connected (masks ! i) (masks ! j);
             same_class = (class_ids ! i = class_ids ! j);
             mergeable = connected
         in if mergeable then [(i, j)] else [])) [i + 1..<length masks])) [0..<length masks])"

subsection \<open>Merging the regions of a group\<close>

fun merge_members :: "det_region list \<Rightarrow> nat list \<Rightarrow> det_region \<Rightarrow> det_region option" where
  "merge_members dets [] st = Some st"
| "merge_members dets (index # rest) (merged_mask, c, score_avg) =
     (case nth_opt dets index of
        None \<Rightarrow> None
      | Some (m, class_id, score) \<Rightarrow>
          merge_members dets rest (merge_masks merged_mask m, class_id, score_avg + score))"

definition merge_group :: "det_region list \<Rightarrow> nat list \<Rightarrow> det_region option" where
  "merge_group dets g =
     (case g of
        [] \<Rightarrow> None
      | index # rest \<Rightarrow>
          (case nth_opt dets index of
             None \<Rightarrow> None
           | Some (m, class_id, score) \<Rightarrow>
               (case merge_members dets rest (m, class_id, 0 + score) of
                  None \<Rightarrow> None
                | Some (merged_mask, c, score_avg) \<Rightarrow>
                    Some (merged_mask, c, score_avg * (1 / real (length g))))))"

fun merge_loop :: "det_region list \<Rightarrow> nat list list \<Rightarrow> det_region list \<Rightarrow> det_region list option" where
  "merge_loop dets [] acc = Some acc"
| "merge_loop dets (g # cc) acc =
     (if g = [] then merge_loop dets cc acc
      else (case merge_group dets g of
              None \<Rightarrow> None
            | Some r \<Rightarrow> merge_loop dets cc (acc @ [r])))"

text \<open>The mask of a member of a group, and the zero array of the shape of a mask.\<close>

definition mask_of :: "det_region list \<Rightarrow> nat \<Rightarrow> mask" where
  "mask_of rs i = fst (rs ! i)"

definition zeros_like :: "mask \<Rightarrow> mask" where
  "zeros_like m = map (map (\<lambda>v. 0)) m"

fun merge_members_gt :: "gt_region list \<Rightarrow> nat list \<Rightarrow> gt_region \<Rightarrow> gt_region option" where
  "merge_members_gt regs [] st = Some st"
| "merge_members_gt regs (index # rest) (merged_mask, c) =
     (case nth_opt regs index of
        None \<Rightarrow> None
      | Some (m, class_id) \<Rightarrow> merge_members_gt regs rest (merge_masks merged_mask m, class_id))"

fun merge_loop_gt :: "gt_region list \<Rightarrow> nat list list \<Rightarrow> gt_region list \<Rightarrow> gt_region list option" where
  "merge_loop_gt regs [] acc = Some acc"
| "merge_loop_gt regs ([] # cc) acc = merge_loop_gt regs cc acc"
| "merge_loop_gt regs ((index # rest) # cc) acc =
     (case nth_opt regs index of
        None \<Rightarrow> None
      | Some r0 \<Rightarrow>
          (case merge_members_gt regs rest r0 of
             None \<Rightarrow> None
           | Some r \<Rightarrow> merge_loop_gt regs cc (acc @ [r])))"

subsection \<open>The second pass: one instance for each group\<close>

text \<open>
  The scan of one group starts from \<^verbatim>\<open>score_best= 0\<close>, \<^verbatim>\<open>index_best= -1\<close> and
  \<^verbatim>\<open>class_id_best= 0\<close> and replaces them when \<^verbatim>\<open>score>score_best\<close>. The instance at
  \<open>index_best\<close> is appended afterwards, whatever \<open>index_best\<close> is.
\<close>

fun best_of_group :: "det_region list \<Rightarrow> nat list \<Rightarrow> real \<times> int \<times> int \<Rightarrow> (real \<times> int \<times> int) option" where
  "best_of_group merged [] st = Some st"
| "best_of_group merged (index # rest) (score_best, index_best, class_id_best) =
     (case nth_opt merged index of
        None \<Rightarrow> None
      | Some (m, class_id, score) \<Rightarrow>
          if score > score_best then best_of_group merged rest (score, int index, class_id)
          else best_of_group merged rest (score_best, index_best, class_id_best))"

fun resolve_loop :: "det_region list \<Rightarrow> nat list list \<Rightarrow> det_region list \<Rightarrow> det_region list option" where
  "resolve_loop merged [] acc = Some acc"
| "resolve_loop merged (g # cc_final) acc =
     (if g = [] then resolve_loop merged cc_final acc
      else (case best_of_group merged g (0, - 1, 0) of
              None \<Rightarrow> None
            | Some (score_best, index_best, class_id_best) \<Rightarrow>
                (case py_nth merged index_best of
                   None \<Rightarrow> None
                 | Some r \<Rightarrow> resolve_loop merged cc_final (acc @ [r]))))"

text \<open>
  The member that the specification keeps, for the scores of the members of a group in
  scan order: position \<open>p\<close> holds the greatest score, and every position before it holds a
  smaller one.
\<close>

definition first_best :: "real list \<Rightarrow> nat \<Rightarrow> bool" where
  "first_best ss p \<longleftrightarrow>
     p < length ss \<and> (\<forall>q < length ss. ss ! q \<le> ss ! p) \<and> (\<forall>q < p. ss ! q < ss ! p)"

definition score_of :: "det_region list \<Rightarrow> nat \<Rightarrow> real" where
  "score_of rs i = snd (snd (rs ! i))"

definition class_of :: "det_region list \<Rightarrow> nat \<Rightarrow> int" where
  "class_of rs i = fst (snd (rs ! i))"

text \<open>The value of \<^verbatim>\<open>index_best\<close> after the scan of a group.\<close>

definition kept_index :: "det_region list \<Rightarrow> nat list \<Rightarrow> int" where
  "kept_index merged g =
     (case best_of_group merged g (0, - 1, 0) of
        None \<Rightarrow> - 1
      | Some (score_best, index_best, class_id_best) \<Rightarrow> index_best)"

subsection \<open>Bounding boxes and captions\<close>

text \<open>
  \<^verbatim>\<open>utils.extract_bboxes\<close> is defined in another module (\<^verbatim>\<open>mrcnn.utils\<close>) and the caption
  is a formatted float; they are the parameters \<open>extract_bboxes\<close> (from the mask as an
  array of booleans to its box) and \<open>format_caption\<close>.
\<close>

definition mask_expanded :: "mask \<Rightarrow> bool list list" where
  "mask_expanded m = map (map (\<lambda>v. v \<noteq> 0)) m"

fun bbox_loop ::
  "(bool list list \<Rightarrow> 'box) \<Rightarrow> (string \<Rightarrow> real \<Rightarrow> string) \<Rightarrow> string list \<Rightarrow> det_region list
     \<Rightarrow> 'box list \<times> string list \<Rightarrow> ('box list \<times> string list) option" where
  "bbox_loop extract_bboxes format_caption class_names [] acc = Some acc"
| "bbox_loop extract_bboxes format_caption class_names ((m, class_id, score) # rest) (bboxes, captions) =
     (let bbox = extract_bboxes (mask_expanded m) in
      case py_nth class_names class_id of
        None \<Rightarrow> None
      | Some label \<Rightarrow>
          bbox_loop extract_bboxes format_caption class_names rest
            (bboxes @ [bbox], captions @ [format_caption label score]))"

fun bbox_loop_gt ::
  "(bool list list \<Rightarrow> 'box) \<Rightarrow> string list \<Rightarrow> gt_region list
     \<Rightarrow> 'box list \<times> string list \<Rightarrow> ('box list \<times> string list) option" where
  "bbox_loop_gt extract_bboxes class_names [] acc = Some acc"
| "bbox_loop_gt extract_bboxes class_names ((m, class_id) # rest) (bboxes_gt, captions_gt) =
     (let bbox = extract_bboxes (mask_expanded m) in
      case py_nth class_names class_id of
        None \<Rightarrow> None
      | Some label \<Rightarrow>
          bbox_loop_gt extract_bboxes class_names rest (bboxes_gt @ [bbox], captions_gt @ [label]))"

subsection \<open>The two extraction methods\<close>

text \<open>
  \<^verbatim>\<open>Graph\<close> is defined in another module (\<^verbatim>\<open>mrcnn.graph\<close>) and \<^verbatim>\<open>np.argsort\<close> is a
  library call. \<open>connectedComponents n es\<close> stands for the result of \<^verbatim>\<open>connectedComponents()\<close> on
  \<^verbatim>\<open>Graph(n)\<close> after \<^verbatim>\<open>addEdge\<close> on the edges \<open>es\<close> in order, and \<open>argsort\<close> for
  \<^verbatim>\<open>np.argsort\<close>.
\<close>

record 'box det_result =
  masks_final :: "det_region list"
  bboxes :: "'box list"
  captions :: "string list"

record 'box gt_result =
  masks_gt_merged :: "gt_region list"
  bboxes_gt :: "'box list"
  captions_gt :: "string list"

definition extract_gt_masks ::
  "(nat \<Rightarrow> (nat \<times> nat) list \<Rightarrow> nat list list) \<Rightarrow> (bool list list \<Rightarrow> 'box) \<Rightarrow> string list
     \<Rightarrow> string \<Rightarrow> int \<Rightarrow> mask list \<Rightarrow> 'box gt_result option" where
  "extract_gt_masks connectedComponents extract_bboxes class_names label_gt class_id_gt masks_gt =
     (case gt_regions_loop label_gt class_id_gt masks_gt [] of
        None \<Rightarrow> None
      | Some regs \<Rightarrow>
          (let cc = connectedComponents (length regs) (class_edges (map fst regs) (map snd regs))
           in case merge_loop_gt regs cc [] of
                None \<Rightarrow> None
              | Some merged \<Rightarrow>
                  (case bbox_loop_gt extract_bboxes class_names merged ([], []) of
                     None \<Rightarrow> None
                   | Some (bs, cs) \<Rightarrow>
                       Some \<lparr> masks_gt_merged = merged, bboxes_gt = bs, captions_gt = cs \<rparr>)))"

definition extract_det_masks ::
  "(real list \<Rightarrow> int list) \<Rightarrow> (nat \<Rightarrow> (nat \<times> nat) list \<Rightarrow> nat list list) \<Rightarrow> (bool list list \<Rightarrow> 'box)
     \<Rightarrow> (string \<Rightarrow> real \<Rightarrow> string) \<Rightarrow> string list \<Rightarrow> real \<Rightarrow> det_region list
     \<Rightarrow> 'box det_result option" where
  "extract_det_masks argsort connectedComponents extract_bboxes format_caption class_names score_thr
     detections =
     (case select_loop class_names score_thr detections [] of
        None \<Rightarrow> None
      | Some sel \<Rightarrow>
          (let sort_indices = rev (argsort (map (\<lambda>(m, c, s). s) sel))
           in case split_det_loop class_names sel sort_indices [] of
                None \<Rightarrow> None
              | Some dets \<Rightarrow>
                  (let cc = connectedComponents (length dets)
                              (class_edges (map fst dets) (map (\<lambda>(m, c, s). c) dets))
                   in case merge_loop dets cc [] of
                        None \<Rightarrow> None
                      | Some merged \<Rightarrow>
                          (let cc_final = connectedComponents (length merged)
                                 (final_edges (map fst merged) (map (\<lambda>(m, c, s). c) merged))
                           in case resolve_loop merged cc_final [] of
                                None \<Rightarrow> None
                              | Some final \<Rightarrow>
                                  (case bbox_loop extract_bboxes format_caption class_names final
                                          ([], []) of
                                     None \<Rightarrow> None
                                   | Some (bs, cs) \<Rightarrow>
                                       Some \<lparr> masks_final = final, bboxes = bs, captions = cs \<rparr>)))))"

section \<open>Analyzer: matching and confusion accounting\<close>

text \<open>
  \<^verbatim>\<open>utils.get_iou\<close> is defined in another module (\<^verbatim>\<open>mrcnn.utils\<close>); it is the parameter
  \<open>get_iou\<close>.
  A box comes with the class of its instance (\<^verbatim>\<open>bboxes\<close> with \<^verbatim>\<open>class_ids_final\<close>,
  \<^verbatim>\<open>bboxes_gt\<close> with \<^verbatim>\<open>class_ids_gt_merged\<close>). Both scans of \<^verbatim>\<open>compute_performances\<close>
  are the same loop over a list of IoU values: it starts from \<^verbatim>\<open>index_best= -1\<close> and
  \<^verbatim>\<open>iou_best= 0\<close> and takes candidate \<open>j\<close> when
  \<^verbatim>\<open>iou>self.iou_thr and iou>=iou_best\<close>.
\<close>

definition best_step :: "real \<Rightarrow> int \<times> real \<Rightarrow> nat \<times> real \<Rightarrow> int \<times> real" where
  "best_step iou_thr st c =
     (case st of (index_best, iou_best) \<Rightarrow>
      case c of (j, iou) \<Rightarrow>
        if iou > iou_thr \<and> iou \<ge> iou_best then (int j, iou) else (index_best, iou_best))"

definition find_best :: "real \<Rightarrow> real list \<Rightarrow> int \<times> real" where
  "find_best iou_thr ious = foldl (best_step iou_thr) (- 1, 0) (enumerate 0 ious)"

text \<open>\<^verbatim>\<open>a[0][c] += 1\<close> and \<^verbatim>\<open>a[c][d] += 1\<close> on numpy arrays.\<close>

definition inc_at :: "nat list \<Rightarrow> int \<Rightarrow> nat list option" where
  "inc_at v c =
     (case py_index (length v) c of
        None \<Rightarrow> None
      | Some k \<Rightarrow> Some (v[k := v ! k + 1]))"

definition inc_at2 :: "nat list list \<Rightarrow> int \<Rightarrow> int \<Rightarrow> nat list list option" where
  "inc_at2 M c d =
     (case py_index (length M) c of
        None \<Rightarrow> None
      | Some k \<Rightarrow>
          (case inc_at (M ! k) d of
             None \<Rightarrow> None
           | Some row \<Rightarrow> Some (M[k := row])))"

text \<open>One iteration of the loop over the ground-truth boxes.\<close>

fun gt_step ::
  "('box \<Rightarrow> 'box \<Rightarrow> real) \<Rightarrow> real \<Rightarrow> ('box \<times> int) list \<Rightarrow> 'box \<times> int
     \<Rightarrow> nat list list \<times> nat list \<Rightarrow> (nat list list \<times> nat list) option" where
  "gt_step get_iou iou_thr dets (bbox_gt, class_id_gt) (C, T) =
     (case inc_at T class_id_gt of
        None \<Rightarrow> None
      | Some T' \<Rightarrow>
          (case find_best iou_thr (map (\<lambda>(bbox, class_id). get_iou bbox bbox_gt) dets) of
             (index_best, iou_best) \<Rightarrow>
               if index_best = - 1 then Some (C, T')
               else (case py_nth dets index_best of
                       None \<Rightarrow> None
                     | Some (bbox, class_id_det) \<Rightarrow>
                         (case inc_at2 C class_id_gt class_id_det of
                            None \<Rightarrow> None
                          | Some C' \<Rightarrow> Some (C', T')))))"

text \<open>One iteration of the loop over the detected boxes.\<close>

fun det_step ::
  "('box \<Rightarrow> 'box \<Rightarrow> real) \<Rightarrow> real \<Rightarrow> ('box \<times> int) list \<Rightarrow> 'box \<times> int
     \<Rightarrow> nat list \<times> nat list \<Rightarrow> (nat list \<times> nat list) option" where
  "det_step get_iou iou_thr gts (bbox, class_id) (D, R) =
     (case inc_at D class_id of
        None \<Rightarrow> None
      | Some D' \<Rightarrow>
          (case find_best iou_thr (map (\<lambda>(bbox_gt, class_id_gt). get_iou bbox bbox_gt) gts) of
             (index_best, iou_best) \<Rightarrow>
               if index_best \<noteq> - 1
               then (case py_nth gts index_best of
                       None \<Rightarrow> None
                     | Some (bbox_gt, class_id_det) \<Rightarrow>
                         if class_id = class_id_det
                         then (case inc_at R class_id of
                                 None \<Rightarrow> None
                               | Some R' \<Rightarrow> Some (D', R'))
                         else Some (D', R))
               else Some (D', R)))"

definition Analyzer_compute_performances ::
  "(nat \<Rightarrow> nat \<Rightarrow> 'q::zero) \<Rightarrow> ('box \<Rightarrow> 'box \<Rightarrow> real) \<Rightarrow> real \<Rightarrow> nat
     \<Rightarrow> ('box \<times> int) list \<Rightarrow> ('box \<times> int) list \<Rightarrow> 'q analyzer option" where
  "Analyzer_compute_performances fdiv get_iou iou_thr n gts dets =
     (case fold_opt (gt_step get_iou iou_thr dets) gts (zeros2 n n, zeros1 n) of
        None \<Rightarrow> None
      | Some (C, T) \<Rightarrow>
          (case fold_opt (det_step get_iou iou_thr gts) dets (zeros1 n, zeros1 n) of
             None \<Rightarrow> None
           | Some (D, R) \<Rightarrow>
               Some \<lparr> confusion_matrix = C,
                      confusion_matrix_norm = normalize_matrix fdiv n C T (zeros2 n n),
                      purity_sample = compute_purity fdiv n R D (zeros1 n),
                      nobjs_true_sample = T,
                      nobjs_det_sample = D,
                      nobjs_det_right_sample = R \<rparr>))"

text \<open>
  The match that the specification describes for a list of IoU values: candidate \<open>j\<close>
  qualifies (its IoU is above the threshold), no qualifying candidate has a greater IoU,
  and every qualifying candidate scanned after \<open>j\<close> has a smaller one.
\<close>

definition qualifies :: "real \<Rightarrow> real list \<Rightarrow> nat \<Rightarrow> bool" where
  "qualifies iou_thr ious j \<longleftrightarrow> j < length ious \<and> ious ! j > iou_thr"

definition best_match :: "real \<Rightarrow> real list \<Rightarrow> nat \<Rightarrow> bool" where
  "best_match iou_thr ious j \<longleftrightarrow>
     qualifies iou_thr ious j \<and>
     (\<forall>k < length ious. qualifies iou_thr ious k \<longrightarrow> ious ! k \<le> ious ! j) \<and>
     (\<forall>k < length ious. j < k \<and> qualifies iou_thr ious k \<longrightarrow> ious ! k < ious ! j)"

section \<open>Properties of ModelTester\<close>

lemma n_max_img_update [simp]: "n_max_img (update_performances t a) = n_max_img t"
  by (simp add: update_performances_def)

lemma test_loop_those:
  "0 \<le> nimg \<Longrightarrow>
   test_loop ins imgs nimg t =
     map_option (\<lambda>rs. foldl update_performances t (contributions rs))
       (those (map ins (if n_max_img t > 0 then take (nat (n_max_img t - 1 - nimg)) imgs else imgs)))"
proof (induction imgs arbitrary: nimg t)
  case Nil
  then show ?case by (simp add: contributions_def)
next
  case (Cons x xs)
  have step: "0 \<le> nimg + 1" using Cons.prems by simp
  show ?case
  proof (cases "n_max_img t > 0 \<and> nimg + 1 \<ge> n_max_img t")
    case True
    then have "nat (n_max_img t - 1 - nimg) = 0" by simp
    with True show ?thesis by (simp add: contributions_def)
  next
    case False
    have tk: "(if n_max_img t > 0 then take (nat (n_max_img t - 1 - nimg)) (x # xs) else x # xs) =
              x # (if n_max_img t > 0 then take (nat (n_max_img t - 1 - (nimg + 1))) xs else xs)"
    proof (cases "n_max_img t > 0")
      case True
      with False have "nimg + 1 < n_max_img t" by simp
      then have "nat (n_max_img t - 1 - nimg) = Suc (nat (n_max_img t - 1 - (nimg + 1)))"
        using Cons.prems by simp
      with True show ?thesis by simp
    next
      case False
      then show ?thesis by simp
    qed
    define ys where "ys = (if n_max_img t > 0 then take (nat (n_max_img t - 1 - (nimg + 1))) xs else xs)"
    have IH1: "test_loop ins xs (nimg + 1) t =
        map_option (\<lambda>rs. foldl update_performances t (contributions rs)) (those (map ins ys))"
      using Cons.IH [OF step, of t] by (simp only: ys_def)
    have IH2: "test_loop ins xs (nimg + 1) (update_performances t a) =
        map_option (\<lambda>rs. foldl update_performances (update_performances t a) (contributions rs))
          (those (map ins ys))" for a
      using Cons.IH [OF step, of "update_performances t a"] by (simp only: ys_def n_max_img_update)
    have tk': "(if n_max_img t > 0 then take (nat (n_max_img t - 1 - nimg)) (x # xs) else x # xs) = x # ys"
      using tk by (simp only: ys_def)
    have unf: "test_loop ins (x # xs) nimg t =
        (case ins x of None \<Rightarrow> None
         | Some (status, a) \<Rightarrow> if status < 0 then test_loop ins xs (nimg + 1) t
             else test_loop ins xs (nimg + 1) (update_performances t a))"
      using False by (auto simp add: Let_def)
    show ?thesis
    proof (cases "ins x")
      case None
      then show ?thesis unfolding tk' unf by simp
    next
      case (Some sa)
      obtain s a where sa: "sa = (s, a)" by (cases sa)
      show ?thesis
        unfolding tk' unf IH1 IH2 using Some sa
        by (cases "those (map ins ys)") (simp_all add: contributions_def)
    qed
  qed
qed

lemma test_loop_inspected:
  "test_loop ins imgs 0 t =
     map_option (\<lambda>rs. foldl update_performances t (contributions rs))
       (those (map ins (inspected_images (n_max_img t) imgs)))"
  using test_loop_those [of 0 ins imgs t] by (simp add: inspected_images_def)

lemma foldl_update_fixed:
  "n_classes (foldl update_performances t as) = n_classes t \<and>
   classification_matrix_norm (foldl update_performances t as) = classification_matrix_norm t \<and>
   purity (foldl update_performances t as) = purity t"
  by (induction as arbitrary: t) (simp_all add: update_performances_def)

lemma fold_upto_update:
  "k \<le> length xs \<Longrightarrow>
   fold (\<lambda>i ys. if skip i then ys else ys[i := g i (ys ! i)]) [0..<k] xs =
     map (\<lambda>i. if i < k \<and> \<not> skip i then g i (xs ! i) else xs ! i) [0..<length xs]"
proof (induction k)
  case 0
  then show ?case by (simp add: map_nth)
next
  case (Suc k)
  let ?m = "map (\<lambda>i. if i < k \<and> \<not> skip i then g i (xs ! i) else xs ! i) [0..<length xs]"
  let ?r = "map (\<lambda>i. if i < Suc k \<and> \<not> skip i then g i (xs ! i) else xs ! i) [0..<length xs]"
  from Suc have k: "k < length xs" by simp
  have IH: "fold (\<lambda>i ys. if skip i then ys else ys[i := g i (ys ! i)]) [0..<k] xs = ?m"
    using Suc by simp
  have "(if skip k then ?m else ?m[k := g k (?m ! k)]) = ?r"
  proof (rule nth_equalityI)
    show "length (if skip k then ?m else ?m[k := g k (?m ! k)]) = length ?r" by simp
  next
    fix i assume "i < length (if skip k then ?m else ?m[k := g k (?m ! k)])"
    then have i: "i < length xs" by (simp split: if_splits)
    show "(if skip k then ?m else ?m[k := g k (?m ! k)]) ! i = ?r ! i"
    proof (cases "i = k")
      case True
      then show ?thesis using k by simp
    next
      case False
      then show ?thesis using i k by (simp add: less_Suc_eq)
    qed
  qed
  moreover have "fold (\<lambda>i ys. if skip i then ys else ys[i := g i (ys ! i)]) [0..<Suc k] xs =
      (if skip k then ?m else ?m[k := g k (?m ! k)])"
    unfolding IH [symmetric] by simp
  ultimately show ?case by (simp only:)
qed

lemma normalize_row_eq:
  "length Nrow = n \<Longrightarrow> normalize_row fdiv n Crow nrm Nrow = map (\<lambda>j. fdiv (Crow ! j) nrm) [0..<n]"
  unfolding normalize_row_def
  using fold_upto_update [of n Nrow "\<lambda>_. False" "\<lambda>j _. fdiv (Crow ! j) nrm"]
  by simp

lemma compute_purity_nth:
  "length P = n \<Longrightarrow> j < n \<Longrightarrow>
   compute_purity fdiv n R D P ! j = (if D ! j \<le> 0 then P ! j else fdiv (R ! j) (D ! j))"
  unfolding compute_purity_def
  using fold_upto_update [of n P "\<lambda>j. D ! j \<le> 0" "\<lambda>j _. fdiv (R ! j) (D ! j)"]
  by simp

lemma normalize_matrix_nth:
  assumes "length N = n" and "i < n" and "length (N ! i) = n" and "j < n"
  shows "normalize_matrix fdiv n C T N ! i ! j =
           (if T ! i \<le> 0 then N ! i ! j else fdiv (C ! i ! j) (T ! i))"
  using assms
    fold_upto_update [of n N "\<lambda>i. T ! i \<le> 0" "\<lambda>i row. normalize_row fdiv n (C ! i) (T ! i) row"]
  by (simp add: normalize_matrix_def normalize_row_eq Let_def)

text \<open>
  C8. When no inspected image raises, \<^verbatim>\<open>test\<close> returns, and its totals are the sum of
  the results of exactly the inspected images whose status is not negative: an image
  whose analysis fails with a negative status adds nothing to the confusion matrix and
  to the counters, and the images after it are still processed.
\<close>

theorem test_skips_failed_images:
  assumes "those (map inspect_results (inspected_images (n_max_img t) image_ids)) = Some rs"
  shows "test fdiv inspect_results image_ids t =
           Some (0, compute_performances fdiv
                      (foldl update_performances t (map snd (filter (\<lambda>r. \<not> fst r < 0) rs))))"
  using assms by (simp add: test_def test_loop_inspected contributions_def)

theorem test_skips_failed_images_witness:
  "those (map (\<lambda>i. Some (if i = (1::nat) then (- 1, one_class_analyzer 9) else (0, one_class_analyzer 1)))
            (inspected_images (n_max_img (ModelTester_init 1 :: real tester)) [0, 1, 2])) =
     Some [(0, one_class_analyzer 1), (- 1, one_class_analyzer 9), (0, one_class_analyzer 1)] \<and>
   test (\<lambda>a b. real a / real b)
     (\<lambda>i. Some (if i = (1::nat) then (- 1, one_class_analyzer 9) else (0, one_class_analyzer 1)))
     [0, 1, 2] (ModelTester_init 1) =
   Some (0, compute_performances (\<lambda>a b. real a / real b)
              (foldl update_performances (ModelTester_init 1)
                 [one_class_analyzer 1, one_class_analyzer 1]))"
proof -
  have h: "those (map (\<lambda>i. Some (if i = (1::nat) then (- 1, one_class_analyzer 9) else (0, one_class_analyzer 1)))
            (inspected_images (n_max_img (ModelTester_init 1 :: real tester)) [0, 1, 2])) =
     Some [(0, one_class_analyzer 1), (- 1, one_class_analyzer 9), (0, one_class_analyzer 1)]"
    by (simp add: inspected_images_def ModelTester_init_def)
  from test_skips_failed_images [OF h, of "\<lambda>a b. real a / real b"] h show ?thesis by simp
qed

text \<open>
  C7. After a pass of \<^verbatim>\<open>test\<close> from a freshly built tester (with any cap \<open>m\<close>), the
  normalised matrix holds in row \<open>i\<close> the entries of the classification matrix divided
  by \<open>nobjs_true[i]\<close> when that count is positive and zeros otherwise, and the purity of
  class \<open>j\<close> is \<open>nobjs_det_right[j]\<close> divided by \<open>nobjs_det[j]\<close> when that count is
  positive and zero otherwise.
\<close>

theorem test_normalizes_matrix_and_purity:
  fixes fdiv :: "nat \<Rightarrow> nat \<Rightarrow> 'q::zero"
  assumes "test fdiv inspect_results image_ids ((ModelTester_init n) \<lparr> n_max_img := m \<rparr>) = Some (status, r)"
    and "i < n" and "j < n"
  shows "classification_matrix_norm r ! i ! j =
           (if nobjs_true r ! i > 0 then fdiv (classification_matrix r ! i ! j) (nobjs_true r ! i) else 0) \<and>
         purity r ! j =
           (if nobjs_det r ! j > 0 then fdiv (nobjs_det_right r ! j) (nobjs_det r ! j) else 0)"
proof -
  let ?t0 = "(ModelTester_init n :: 'q tester) \<lparr> n_max_img := m \<rparr>"
  from assms(1) obtain t' where loop: "test_loop inspect_results image_ids 0 ?t0 = Some t'"
    and r: "r = compute_performances fdiv t'"
    by (auto simp: test_def split: option.splits)
  from loop obtain rs where t': "t' = foldl update_performances ?t0 (contributions rs)"
    unfolding test_loop_inspected by auto
  have fixed: "n_classes t' = n" "classification_matrix_norm t' = zeros2 n n" "purity t' = zeros1 n"
    using foldl_update_fixed [of ?t0 "contributions rs"]
    by (simp_all add: t' ModelTester_init_def)
  have N: "classification_matrix_norm r ! i ! j =
             (if nobjs_true t' ! i \<le> 0 then 0 else fdiv (classification_matrix t' ! i ! j) (nobjs_true t' ! i))"
    using assms(2,3) normalize_matrix_nth [of "zeros2 n n" n i j fdiv "classification_matrix t'" "nobjs_true t'"]
    by (simp add: r compute_performances_def fixed zeros2_def)
  have P: "purity r ! j =
             (if nobjs_det t' ! j \<le> 0 then 0 else fdiv (nobjs_det_right t' ! j) (nobjs_det t' ! j))"
    using assms(3) compute_purity_nth [of "zeros1 n" n j fdiv "nobjs_det_right t'" "nobjs_det t'"]
    by (simp add: r compute_performances_def fixed zeros1_def)
  have same: "nobjs_true r = nobjs_true t'" "classification_matrix r = classification_matrix t'"
    "nobjs_det r = nobjs_det t'" "nobjs_det_right r = nobjs_det_right t'"
    by (simp_all add: r compute_performances_def)
  show ?thesis using N P by (simp add: same)
qed

theorem test_normalizes_matrix_and_purity_witness:
  "test (\<lambda>a b. real a / real b) (\<lambda>i::nat. Some (0, one_class_analyzer 2)) [0]
      ((ModelTester_init 1) \<lparr> n_max_img := - 1 \<rparr>) =
     Some (0, \<lparr> n_classes = 1, n_max_img = - 1, classification_matrix = [[2]],
                classification_matrix_norm = [[1]], purity = [1], nobjs_true = [2],
                nobjs_det = [2], nobjs_det_right = [2] \<rparr>) \<and>
   (0::nat) < 1 \<and>
   [[1::real]] ! 0 ! 0 = (if [2::nat] ! 0 > 0 then real ([[2::nat]] ! 0 ! 0) / real ([2::nat] ! 0) else 0) \<and>
   [1::real] ! 0 = (if [2::nat] ! 0 > 0 then real ([2::nat] ! 0) / real ([2::nat] ! 0) else 0)"
proof -
  have run: "test (\<lambda>a b. real a / real b) (\<lambda>i::nat. Some (0, one_class_analyzer 2)) [0]
      ((ModelTester_init 1) \<lparr> n_max_img := - 1 \<rparr>) =
     Some (0, \<lparr> n_classes = 1, n_max_img = - 1, classification_matrix = [[2]],
                classification_matrix_norm = [[1]], purity = [1], nobjs_true = [2],
                nobjs_det = [2], nobjs_det_right = [2] \<rparr>)"
    by (simp add: test_def ModelTester_init_def zeros1_def zeros2_def one_class_analyzer_def
        update_performances_def mat_add_def vec_add_def compute_performances_def
        normalize_matrix_def normalize_row_def compute_purity_def)
  from test_normalizes_matrix_and_purity [OF run, of 0 0] run show ?thesis by simp
qed

text \<open>
  C2 (the code stops one image early). With a cap of \<open>2\<close> and three images that each hold
  one true object, \<^verbatim>\<open>test\<close> accumulates one object: only the first image is analysed,
  because the counter is incremented before it is compared with \<^verbatim>\<open>>=\<close>.
\<close>

theorem test_cap_analyses_one_image_less:
  "map_option (nobjs_true \<circ> snd)
     (test (\<lambda>a b. real a / real b) (\<lambda>i::nat. Some (0, one_class_analyzer 1))
        [0, 1, 2] ((ModelTester_init 1) \<lparr> n_max_img := 2 \<rparr>)) = Some [1]"
  by (simp add: test_def ModelTester_init_def zeros1_def zeros2_def one_class_analyzer_def
        update_performances_def mat_add_def vec_add_def compute_performances_def)

section \<open>Properties of the matching\<close>

lemma find_best_snoc:
  "find_best thr (xs @ [x]) = best_step thr (find_best thr xs) (length xs, x)"
  by (simp add: find_best_def enumerate_append_eq)

lemma best_match_less:
  assumes "best_match thr ious j" and "best_match thr ious k" and "j < k"
  shows False
proof -
  from assms(2) have qk: "qualifies thr ious k" and klen: "k < length ious"
    by (simp_all add: best_match_def qualifies_def)
  from assms(1) have qj: "qualifies thr ious j" and jlen: "j < length ious"
    by (simp_all add: best_match_def qualifies_def)
  from assms(1) klen qk \<open>j < k\<close> have "ious ! k < ious ! j"
    by (simp add: best_match_def)
  moreover from assms(2) jlen qj have "ious ! j \<le> ious ! k"
    by (simp add: best_match_def)
  ultimately show False by simp
qed

lemma best_match_unique:
  assumes "best_match thr ious j" and "best_match thr ious k"
  shows "j = k"
  using best_match_less [OF assms] best_match_less [OF assms(2) assms(1)]
  by (cases j k rule: linorder_cases) auto

lemma find_best_inv:
  assumes "\<forall>x \<in> set ious. 0 \<le> x"
  shows "(find_best thr ious = (- 1, 0) \<and> (\<forall>j. \<not> qualifies thr ious j)) \<or>
         (\<exists>j. best_match thr ious j \<and> find_best thr ious = (int j, ious ! j))"
  using assms
proof (induction ious rule: rev_induct)
  case Nil
  then show ?case by (simp add: find_best_def qualifies_def)
next
  case (snoc x xs)
  then have IH: "(find_best thr xs = (- 1, 0) \<and> (\<forall>j. \<not> qualifies thr xs j)) \<or>
         (\<exists>j. best_match thr xs j \<and> find_best thr xs = (int j, xs ! j))"
    and x0: "0 \<le> x" by simp_all
  have q_old: "qualifies thr (xs @ [x]) k \<longleftrightarrow> qualifies thr xs k \<or> (k = length xs \<and> x > thr)" for k
    by (auto simp: qualifies_def nth_append less_Suc_eq)
  from IH show ?case
  proof
    assume none: "find_best thr xs = (- 1, 0) \<and> (\<forall>j. \<not> qualifies thr xs j)"
    show ?thesis
    proof (cases "x > thr")
      case True
      have "best_match thr (xs @ [x]) (length xs)"
        using True none unfolding best_match_def q_old by (auto simp: nth_append qualifies_def)
      moreover have "find_best thr (xs @ [x]) = (int (length xs), (xs @ [x]) ! length xs)"
        using True none x0 by (simp add: find_best_snoc best_step_def)
      ultimately show ?thesis by blast
    next
      case False
      then have "find_best thr (xs @ [x]) = (- 1, 0)"
        using none by (simp add: find_best_snoc best_step_def)
      moreover have "\<forall>j. \<not> qualifies thr (xs @ [x]) j"
        using False none by (simp add: q_old)
      ultimately show ?thesis by blast
    qed
  next
    assume "\<exists>j. best_match thr xs j \<and> find_best thr xs = (int j, xs ! j)"
    then obtain j where bm: "best_match thr xs j" and fb: "find_best thr xs = (int j, xs ! j)"
      by blast
    from bm have j: "j < length xs" and qj: "xs ! j > thr"
      and mx: "\<And>k. k < length xs \<Longrightarrow> xs ! k > thr \<Longrightarrow> xs ! k \<le> xs ! j"
      and lt: "\<And>k. k < length xs \<Longrightarrow> j < k \<Longrightarrow> xs ! k > thr \<Longrightarrow> xs ! k < xs ! j"
      unfolding best_match_def qualifies_def by auto
    show ?thesis
    proof (cases "x > thr \<and> x \<ge> xs ! j")
      case True
      have "best_match thr (xs @ [x]) (length xs)"
        unfolding best_match_def q_old
      proof (intro conjI allI impI)
        show "qualifies thr xs (length xs) \<or> length xs = length xs \<and> thr < x" using True by simp
      next
        fix k assume "k < length (xs @ [x])" "qualifies thr xs k \<or> k = length xs \<and> thr < x"
        then show "(xs @ [x]) ! k \<le> (xs @ [x]) ! length xs"
          using True mx by (auto simp: nth_append qualifies_def) fastforce
      next
        fix k assume "k < length (xs @ [x])" "length xs < k \<and> (qualifies thr xs k \<or> k = length xs \<and> thr < x)"
        then show "(xs @ [x]) ! k < (xs @ [x]) ! length xs" by simp
      qed
      moreover have "find_best thr (xs @ [x]) = (int (length xs), (xs @ [x]) ! length xs)"
        using True fb by (simp add: find_best_snoc best_step_def)
      ultimately show ?thesis by blast
    next
      case False
      have "best_match thr (xs @ [x]) j"
        unfolding best_match_def q_old
      proof (intro conjI allI impI)
        show "qualifies thr xs j \<or> j = length xs \<and> thr < x" using j qj by (simp add: qualifies_def)
      next
        fix k assume "k < length (xs @ [x])" "qualifies thr xs k \<or> k = length xs \<and> thr < x"
        then show "(xs @ [x]) ! k \<le> (xs @ [x]) ! j"
          using False mx j by (auto simp: nth_append qualifies_def)
      next
        fix k assume "k < length (xs @ [x])" "j < k \<and> (qualifies thr xs k \<or> k = length xs \<and> thr < x)"
        then show "(xs @ [x]) ! k < (xs @ [x]) ! j"
          using False lt j by (auto simp: nth_append qualifies_def)
      qed
      moreover have "find_best thr (xs @ [x]) = (int j, (xs @ [x]) ! j)"
        using False fb j by (auto simp add: find_best_snoc best_step_def nth_append)
      ultimately show ?thesis by blast
    qed
  qed
qed

lemma inc_at_valid:
  "0 \<le> c \<Longrightarrow> c < int (length v) \<Longrightarrow> inc_at v c = Some (v[nat c := v ! nat c + 1])"
  by (simp add: inc_at_def py_index_def)

lemma inc_at2_valid:
  "0 \<le> c \<Longrightarrow> c < int (length M) \<Longrightarrow> 0 \<le> d \<Longrightarrow> d < int (length (M ! nat c)) \<Longrightarrow>
   inc_at2 M c d = Some (M[nat c := (M ! nat c)[nat d := M ! nat c ! nat d + 1]])"
  by (simp add: inc_at2_def inc_at_def py_index_def)

lemma py_nth_nat: "j < length xs \<Longrightarrow> py_nth xs (int j) = Some (xs ! j)"
  by (simp add: py_nth_def py_index_def)

lemma find_best_cases:
  assumes "\<forall>x \<in> set ious. 0 \<le> x"
  shows "((\<exists>j. qualifies thr ious j) \<longrightarrow> (\<exists>j. best_match thr ious j)) \<and>
         (\<forall>j. best_match thr ious j \<longrightarrow> find_best thr ious = (int j, ious ! j)) \<and>
         ((\<forall>j. \<not> qualifies thr ious j) \<longrightarrow> find_best thr ious = (- 1, 0))"
proof -
  from find_best_inv [OF assms, of thr]
  show ?thesis
  proof
    assume a: "find_best thr ious = (- 1, 0) \<and> (\<forall>j. \<not> qualifies thr ious j)"
    then have "\<forall>j. \<not> best_match thr ious j" by (simp add: best_match_def)
    with a show ?thesis by simp
  next
    assume "\<exists>j. best_match thr ious j \<and> find_best thr ious = (int j, ious ! j)"
    then obtain j where bm: "best_match thr ious j" and fb: "find_best thr ious = (int j, ious ! j)"
      by blast
    have "\<forall>k. best_match thr ious k \<longrightarrow> find_best thr ious = (int k, ious ! k)"
      using best_match_unique [OF bm] fb by auto
    moreover have "\<not> (\<forall>j. \<not> qualifies thr ious j)" using bm by (auto simp: best_match_def)
    ultimately show ?thesis using bm by blast
  qed
qed

text \<open>
  C5. For a ground-truth instance, a detection is matched only if its IoU is above the
  threshold; the detection that is kept has the greatest IoU among the qualifying ones,
  and of several with that IoU it is the one scanned last. When there is such a match the
  confusion matrix is incremented at the true class and the class of the matched
  detection, and \<open>nobjs_true\<close> at the true class; without one only \<open>nobjs_true\<close> is. The
  scan over the ground truth for one detection follows the same rule: \<open>nobjs_det\<close> is
  incremented, and \<open>nobjs_det_right\<close> when the match exists and has the class of the
  detection. IoU values are not negative, and the class ids are classes of the
  configuration.
\<close>

theorem iou_matching_rule:
  fixes get_iou :: "'box \<Rightarrow> 'box \<Rightarrow> real"
  assumes nonneg: "\<forall>d \<in> set dets. \<forall>g \<in> set gts. 0 \<le> get_iou (fst d) (fst g)"
    and cls_d: "\<forall>d \<in> set dets. 0 \<le> snd d \<and> snd d < int n"
    and cls_g: "\<forall>g \<in> set gts. 0 \<le> snd g \<and> snd g < int n"
    and shape: "length C = n" "\<forall>row \<in> set C. length row = n" "length T = n" "length D = n" "length R = n"
    and g: "(bbox_gt, class_id_gt) \<in> set gts" and d: "(bbox, class_id) \<in> set dets"
  shows "(let ious = map (\<lambda>x. get_iou (fst x) bbox_gt) dets;
              T' = T[nat class_id_gt := T ! nat class_id_gt + 1]
          in ((\<exists>j. qualifies iou_thr ious j) \<longrightarrow> (\<exists>j. best_match iou_thr ious j)) \<and>
             (\<forall>j. best_match iou_thr ious j \<longrightarrow>
                  gt_step get_iou iou_thr dets (bbox_gt, class_id_gt) (C, T) =
                    Some (C[nat class_id_gt := (C ! nat class_id_gt)
                              [nat (snd (dets ! j)) := C ! nat class_id_gt ! nat (snd (dets ! j)) + 1]], T')) \<and>
             ((\<forall>j. \<not> qualifies iou_thr ious j) \<longrightarrow>
                  gt_step get_iou iou_thr dets (bbox_gt, class_id_gt) (C, T) = Some (C, T'))) \<and>
         (let ious = map (\<lambda>x. get_iou bbox (fst x)) gts;
              D' = D[nat class_id := D ! nat class_id + 1]
          in ((\<exists>j. qualifies iou_thr ious j) \<longrightarrow> (\<exists>j. best_match iou_thr ious j)) \<and>
             (\<forall>j. best_match iou_thr ious j \<longrightarrow>
                  det_step get_iou iou_thr gts (bbox, class_id) (D, R) =
                    Some (D', if class_id = snd (gts ! j)
                              then R[nat class_id := R ! nat class_id + 1] else R)) \<and>
             ((\<forall>j. \<not> qualifies iou_thr ious j) \<longrightarrow>
                  det_step get_iou iou_thr gts (bbox, class_id) (D, R) = Some (D', R)))"
proof -
  define ig where "ig = map (\<lambda>x. get_iou (fst x) bbox_gt) dets"
  define id where "id = map (\<lambda>x. get_iou bbox (fst x)) gts"
  have ig': "map (\<lambda>(bbox, class_id). get_iou bbox bbox_gt) dets = ig"
    by (simp add: ig_def case_prod_beta)
  have id': "map (\<lambda>(bbox_gt, class_id_gt). get_iou bbox bbox_gt) gts = id"
    by (simp add: id_def case_prod_beta)
  have ig0: "\<forall>x \<in> set ig. 0 \<le> x" using nonneg g by (force simp: ig_def)
  have id0: "\<forall>x \<in> set id. 0 \<le> x" using nonneg d by (force simp: id_def)
  note G = find_best_cases [OF ig0, of iou_thr]
  note Dd = find_best_cases [OF id0, of iou_thr]
  have cg: "0 \<le> class_id_gt" "class_id_gt < int n" using cls_g g by auto
  have cd: "0 \<le> class_id" "class_id < int n" using cls_d d by auto
  have T': "inc_at T class_id_gt = Some (T[nat class_id_gt := T ! nat class_id_gt + 1])"
    using cg shape by (simp add: inc_at_valid)
  have D': "inc_at D class_id = Some (D[nat class_id := D ! nat class_id + 1])"
    using cd shape by (simp add: inc_at_valid)
  have R': "inc_at R class_id = Some (R[nat class_id := R ! nat class_id + 1])"
    using cd shape by (simp add: inc_at_valid)
  have g_best: "gt_step get_iou iou_thr dets (bbox_gt, class_id_gt) (C, T) =
      Some (C[nat class_id_gt := (C ! nat class_id_gt)
                [nat (snd (dets ! j)) := C ! nat class_id_gt ! nat (snd (dets ! j)) + 1]],
            T[nat class_id_gt := T ! nat class_id_gt + 1])"
    if bm: "best_match iou_thr ig j" for j
  proof -
    from bm have j: "j < length dets" by (simp add: best_match_def qualifies_def ig_def)
    from G bm have fb: "find_best iou_thr ig = (int j, ig ! j)" by blast
    obtain b c where dj: "dets ! j = (b, c)" by (cases "dets ! j")
    have "dets ! j \<in> set dets" using j by simp
    with cls_d dj have c: "0 \<le> c" "c < int n" by auto
    have row: "length (C ! nat class_id_gt) = n" using shape cg by simp
    have "inc_at2 C class_id_gt c =
        Some (C[nat class_id_gt := (C ! nat class_id_gt)[nat c := C ! nat class_id_gt ! nat c + 1]])"
      using cg c shape row by (simp add: inc_at2_valid)
    then show ?thesis
      using T' fb dj j by (simp add: ig' py_nth_nat)
  qed
  have g_none: "gt_step get_iou iou_thr dets (bbox_gt, class_id_gt) (C, T) =
      Some (C, T[nat class_id_gt := T ! nat class_id_gt + 1])"
    if "\<forall>j. \<not> qualifies iou_thr ig j"
  proof -
    from G that have "find_best iou_thr ig = (- 1, 0)" by blast
    then show ?thesis using T' by (simp add: ig')
  qed
  have d_best: "det_step get_iou iou_thr gts (bbox, class_id) (D, R) =
      Some (D[nat class_id := D ! nat class_id + 1],
            if class_id = snd (gts ! j) then R[nat class_id := R ! nat class_id + 1] else R)"
    if bm: "best_match iou_thr id j" for j
  proof -
    from bm have j: "j < length gts" by (simp add: best_match_def qualifies_def id_def)
    from Dd bm have fb: "find_best iou_thr id = (int j, id ! j)" by blast
    obtain b c where gj: "gts ! j = (b, c)" by (cases "gts ! j")
    show ?thesis
    proof (cases "class_id = c")
      case True
      then show ?thesis using D' R' fb gj j by (auto simp add: id' py_nth_nat)
    next
      case False
      then show ?thesis using D' fb gj j by (simp add: id' py_nth_nat)
    qed
  qed
  have d_none: "det_step get_iou iou_thr gts (bbox, class_id) (D, R) =
      Some (D[nat class_id := D ! nat class_id + 1], R)"
    if "\<forall>j. \<not> qualifies iou_thr id j"
  proof -
    from Dd that have "find_best iou_thr id = (- 1, 0)" by blast
    then show ?thesis using D' by (simp add: id')
  qed
  show ?thesis
    unfolding Let_def ig_def [symmetric] id_def [symmetric]
    using G Dd g_best g_none d_best d_none by blast
qed


theorem iou_matching_rule_witness:
  "list_all (\<lambda>d. list_all (\<lambda>g. (0::real) \<le> (\<lambda>a b. 4 / 5) (fst d) (fst g)) [(7::nat, 1::int)])
     [(0::nat, 1::int), (1, 0)] \<and>
   best_match (3 / 5) (map (\<lambda>x. 4 / 5) [(0::nat, 1::int), (1, 0)]) 1 \<and>
   best_match (3 / 5) (map (\<lambda>x. 4 / 5) [(7::nat, 1::int)]) 0 \<and>
   gt_step (\<lambda>a b. 4 / 5) (3 / 5) [(0::nat, 1), (1, 0)] (7, 1) ([[0, 0], [0, 0]], [0, 0]) =
     Some ([[0, 0], [1, 0]], [0, 1]) \<and>
   det_step (\<lambda>a b. 4 / 5) (3 / 5) [(7::nat, 1)] (0, 1) ([0, 0], [0, 0]) = Some ([0, 1], [0, 1])"
proof -
  have bm1: "best_match (3 / 5) (map (\<lambda>x. 4 / 5) [(0::nat, 1::int), (1, 0)]) 1"
    by (simp add: best_match_def qualifies_def All_less_Suc)
  have bm0: "best_match (3 / 5) (map (\<lambda>x. 4 / 5) [(7::nat, 1::int)]) 0"
    by (simp add: best_match_def qualifies_def All_less_Suc)
  have rule: "(let ious = map (\<lambda>x. 4 / 5) [(0::nat, 1::int), (1, 0)];
              T' = [0, 0][nat 1 := [0, 0] ! nat 1 + 1]
          in ((\<exists>j. qualifies (3 / 5) ious j) \<longrightarrow> (\<exists>j. best_match (3 / 5) ious j)) \<and>
             (\<forall>j. best_match (3 / 5) ious j \<longrightarrow>
                  gt_step (\<lambda>a b. 4 / 5) (3 / 5) [(0::nat, 1::int), (1, 0)] (7, 1) ([[0, 0], [0, 0]], [0, 0]) =
                    Some ([[0, 0], [0, 0]][nat 1 := ([[0, 0], [0, 0]] ! nat 1)
                              [nat (snd ([(0::nat, 1::int), (1, 0)] ! j)) :=
                                 [[0, 0], [0, 0]] ! nat 1 ! nat (snd ([(0::nat, 1::int), (1, 0)] ! j)) + 1]], T')) \<and>
             ((\<forall>j. \<not> qualifies (3 / 5) ious j) \<longrightarrow>
                  gt_step (\<lambda>a b. 4 / 5) (3 / 5) [(0::nat, 1::int), (1, 0)] (7, 1) ([[0, 0], [0, 0]], [0, 0]) =
                    Some ([[0, 0], [0, 0]], T'))) \<and>
         (let ious = map (\<lambda>x. 4 / 5) [(7::nat, 1::int)];
              D' = [0, 0][nat 1 := [0, 0] ! nat 1 + 1]
          in ((\<exists>j. qualifies (3 / 5) ious j) \<longrightarrow> (\<exists>j. best_match (3 / 5) ious j)) \<and>
             (\<forall>j. best_match (3 / 5) ious j \<longrightarrow>
                  det_step (\<lambda>a b. 4 / 5) (3 / 5) [(7::nat, 1::int)] (0, 1) ([0, 0], [0, 0]) =
                    Some (D', if (1::int) = snd ([(7::nat, 1::int)] ! j)
                              then [0, 0][nat 1 := [0, 0] ! nat 1 + 1] else [0, 0])) \<and>
             ((\<forall>j. \<not> qualifies (3 / 5) ious j) \<longrightarrow>
                  det_step (\<lambda>a b. 4 / 5) (3 / 5) [(7::nat, 1::int)] (0, 1) ([0, 0], [0, 0]) =
                    Some (D', [0, 0])))"
    by (rule iou_matching_rule [where n = 2 and gts = "[(7::nat, 1::int)]"]) simp_all
  from rule have
    g: "\<forall>j. best_match (3 / 5) (map (\<lambda>x. 4 / 5) [(0::nat, 1::int), (1, 0)]) j \<longrightarrow>
          gt_step (\<lambda>a b. 4 / 5) (3 / 5) [(0::nat, 1::int), (1, 0)] (7, 1) ([[0, 0], [0, 0]], [0, 0]) =
            Some ([[0, 0], [0, 0]][nat 1 := ([[0, 0], [0, 0]] ! nat 1)
                      [nat (snd ([(0::nat, 1::int), (1, 0)] ! j)) :=
                         [[0, 0], [0, 0]] ! nat 1 ! nat (snd ([(0::nat, 1::int), (1, 0)] ! j)) + 1]],
                  [0, 0][nat 1 := [0, 0] ! nat 1 + 1])"
    and d: "\<forall>j. best_match (3 / 5) (map (\<lambda>x. 4 / 5) [(7::nat, 1::int)]) j \<longrightarrow>
          det_step (\<lambda>a b. 4 / 5) (3 / 5) [(7::nat, 1::int)] (0, 1) ([0, 0], [0, 0]) =
            Some ([0, 0][nat 1 := [0, 0] ! nat 1 + 1],
                  if (1::int) = snd ([(7::nat, 1::int)] ! j)
                  then [0, 0][nat 1 := [0, 0] ! nat 1 + 1] else [0, 0])"
    unfolding Let_def by blast+
  from g bm1 have "gt_step (\<lambda>a b. 4 / 5) (3 / 5) [(0::nat, 1), (1, 0)] (7, 1) ([[0, 0], [0, 0]], [0, 0]) =
     Some ([[0, 0], [1, 0]], [0, 1])"
    by simp
  moreover from d bm0 have "det_step (\<lambda>a b. 4 / 5) (3 / 5) [(7::nat, 1)] (0, 1) ([0, 0], [0, 0]) =
     Some ([0, 1], [0, 1])"
    by simp
  ultimately show ?thesis using bm1 bm0 by simp
qed

text \<open>
  Without any detection a ground-truth instance is only counted in \<open>nobjs_true\<close>, and
  without any ground truth a detection is only counted in \<open>nobjs_det\<close>.
\<close>

lemma gt_step_no_detections:
  assumes "0 \<le> class_id_gt" and "class_id_gt < int (length T)"
  shows "gt_step get_iou iou_thr [] (bbox_gt, class_id_gt) (C, T) =
           Some (C, T[nat class_id_gt := T ! nat class_id_gt + 1])"
  using assms by (simp add: inc_at_valid find_best_def)

lemma det_step_no_ground_truth:
  assumes "0 \<le> class_id" and "class_id < int (length D)"
  shows "det_step get_iou iou_thr [] (bbox, class_id) (D, R) =
           Some (D[nat class_id := D ! nat class_id + 1], R)"
  using assms by (simp add: inc_at_valid find_best_def)

section \<open>Properties of the second pass over the detections\<close>

lemma nth_opt_valid: "i < length xs \<Longrightarrow> nth_opt xs i = Some (xs ! i)"
  by (simp add: nth_opt_def)

lemma best_of_group_step:
  assumes "index < length merged"
  shows "best_of_group merged (index # rest) (sb, ib, cb) =
           (if score_of merged index > sb
            then best_of_group merged rest (score_of merged index, int index, class_of merged index)
            else best_of_group merged rest (sb, ib, cb))"
  using assms by (cases "merged ! index") (auto simp: nth_opt_valid score_of_def class_of_def)

lemma first_best_Cons_0:
  "\<forall>x \<in> set ss. x \<le> s \<Longrightarrow> first_best (s # ss) 0"
  by (auto simp: first_best_def nth_Cons split: nat.splits)

lemma first_best_Cons_Suc:
  assumes "first_best ss p" and "s < ss ! p"
  shows "first_best (s # ss) (Suc p)"
  using assms unfolding first_best_def
  by (auto simp: nth_Cons less_Suc_eq_0_disj split: nat.splits)

lemma best_of_group_spec:
  assumes "\<forall>i \<in> set g. i < length merged"
  shows "((\<forall>i \<in> set g. score_of merged i \<le> sb) \<longrightarrow>
            best_of_group merged g (sb, ib, cb) = Some (sb, ib, cb)) \<and>
         (\<not> (\<forall>i \<in> set g. score_of merged i \<le> sb) \<longrightarrow>
            (\<exists>p. first_best (map (score_of merged) g) p \<and> sb < score_of merged (g ! p) \<and>
                  best_of_group merged g (sb, ib, cb) =
                    Some (score_of merged (g ! p), int (g ! p), class_of merged (g ! p))))"
  using assms
proof (induction g arbitrary: sb ib cb)
  case Nil
  then show ?case by simp
next
  case (Cons index rest)
  then have idx: "index < length merged" and rest: "\<forall>i \<in> set rest. i < length merged" by simp_all
  let ?s = "score_of merged index"
  note st = best_of_group_step [OF idx, of rest sb ib cb]
  show ?case
  proof (cases "?s > sb")
    case True
    note IH = Cons.IH [OF rest, of ?s "int index" "class_of merged index"]
    show ?thesis
    proof (cases "\<forall>i \<in> set rest. score_of merged i \<le> ?s")
      case all: True
      with IH have r: "best_of_group merged rest (?s, int index, class_of merged index) =
          Some (?s, int index, class_of merged index)" by simp
      have "first_best (map (score_of merged) (index # rest)) 0"
        using all by (simp add: first_best_Cons_0)
      moreover have "sb < score_of merged ((index # rest) ! 0)" using True by simp
      moreover have "best_of_group merged (index # rest) (sb, ib, cb) =
          Some (score_of merged ((index # rest) ! 0), int ((index # rest) ! 0),
                class_of merged ((index # rest) ! 0))"
        unfolding st using True r by simp
      moreover have "\<not> (\<forall>i \<in> set (index # rest). score_of merged i \<le> sb)" using True by auto
      ultimately show ?thesis by blast
    next
      case some: False
      with IH obtain p where p: "first_best (map (score_of merged) rest) p"
        "?s < score_of merged (rest ! p)"
        "best_of_group merged rest (?s, int index, class_of merged index) =
           Some (score_of merged (rest ! p), int (rest ! p), class_of merged (rest ! p))"
        by auto
      from p(1) have plen: "p < length rest" by (simp add: first_best_def)
      have "first_best (map (score_of merged) (index # rest)) (Suc p)"
        using first_best_Cons_Suc [OF p(1), of ?s] p(2) plen by simp
      moreover have "sb < score_of merged ((index # rest) ! Suc p)" using True p(2) by simp
      moreover have "best_of_group merged (index # rest) (sb, ib, cb) =
          Some (score_of merged ((index # rest) ! Suc p), int ((index # rest) ! Suc p),
                class_of merged ((index # rest) ! Suc p))"
        unfolding st using True p(3) by simp
      moreover have "\<not> (\<forall>i \<in> set (index # rest). score_of merged i \<le> sb)" using True by auto
      ultimately show ?thesis by blast
    qed
  next
    case False
    note IH = Cons.IH [OF rest, of sb ib cb]
    have stepF: "best_of_group merged (index # rest) (sb, ib, cb) = best_of_group merged rest (sb, ib, cb)"
      unfolding st using False by simp
    show ?thesis
    proof (cases "\<forall>i \<in> set rest. score_of merged i \<le> sb")
      case all: True
      with IH have "best_of_group merged rest (sb, ib, cb) = Some (sb, ib, cb)" by simp
      moreover have "\<forall>i \<in> set (index # rest). score_of merged i \<le> sb" using all False by auto
      ultimately show ?thesis using stepF by simp
    next
      case some: False
      with IH obtain p where p: "first_best (map (score_of merged) rest) p"
        "sb < score_of merged (rest ! p)"
        "best_of_group merged rest (sb, ib, cb) =
           Some (score_of merged (rest ! p), int (rest ! p), class_of merged (rest ! p))"
        by auto
      from p(1) have plen: "p < length rest" by (simp add: first_best_def)
      have "?s < score_of merged (rest ! p)" using False p(2) by simp
      then have "first_best (map (score_of merged) (index # rest)) (Suc p)"
        using first_best_Cons_Suc [OF p(1), of ?s] plen by simp
      moreover have "sb < score_of merged ((index # rest) ! Suc p)" using p(2) by simp
      moreover have "best_of_group merged (index # rest) (sb, ib, cb) =
          Some (score_of merged ((index # rest) ! Suc p), int ((index # rest) ! Suc p),
                class_of merged ((index # rest) ! Suc p))"
        using p(3) stepF by simp
      moreover have "\<not> (\<forall>i \<in> set (index # rest). score_of merged i \<le> sb)" using some by auto
      ultimately show ?thesis by blast
    qed
  qed
qed

lemma kept_index_first_best:
  assumes "g \<noteq> []" and "\<forall>i \<in> set g. i < length merged" and "\<forall>i \<in> set g. 0 < score_of merged i"
  shows "\<exists>p. first_best (map (score_of merged) g) p \<and>
             best_of_group merged g (0, - 1, 0) =
               Some (score_of merged (g ! p), int (g ! p), class_of merged (g ! p)) \<and>
             kept_index merged g = int (g ! p)"
proof -
  from assms(1) obtain i where "i \<in> set g" by (cases g) auto
  with assms(3) have "\<not> (\<forall>i \<in> set g. score_of merged i \<le> 0)" by force
  with best_of_group_spec [OF assms(2), of 0 "- 1" 0]
  obtain p where "first_best (map (score_of merged) g) p"
    "best_of_group merged g (0, - 1, 0) =
       Some (score_of merged (g ! p), int (g ! p), class_of merged (g ! p))"
    by blast
  then show ?thesis by (auto simp: kept_index_def)
qed

lemma resolve_loop_step:
  assumes "g \<noteq> []" and "\<forall>i \<in> set g. i < length merged" and "\<forall>i \<in> set g. 0 < score_of merged i"
  shows "resolve_loop merged (g # cc) acc =
           resolve_loop merged cc (acc @ [merged ! nat (kept_index merged g)])"
proof -
  from kept_index_first_best [OF assms] obtain p where
    p: "first_best (map (score_of merged) g) p"
    and b: "best_of_group merged g (0, - 1, 0) =
               Some (score_of merged (g ! p), int (g ! p), class_of merged (g ! p))"
    and k: "kept_index merged g = int (g ! p)" by blast
  from p have "p < length g" by (simp add: first_best_def)
  then have "g ! p \<in> set g" by simp
  with assms(2) have "g ! p < length merged" by blast
  then have "py_nth merged (int (g ! p)) = Some (merged ! (g ! p))"
    by (simp add: py_nth_def py_index_def)
  then show ?thesis using assms(1) b k by simp
qed



lemma class_edges_set:
  "(i, j) \<in> set (class_edges masks class_ids) \<longleftrightarrow>
     i < j \<and> j < length masks \<and> are_mask_connected (masks ! i) (masks ! j) \<and>
     class_ids ! i = class_ids ! j"
  by (auto simp: class_edges_def Let_def)



text \<open>
  C10. In a group whose members all have positive scores, the scan keeps the first
  member in scan order that holds the greatest score of the group: a later member with
  the same score does not replace it (the comparison is \<^verbatim>\<open>score>score_best\<close>, from
  \<open>0\<close>).
\<close>

theorem second_pass_ties_keep_first:
  assumes "g \<noteq> []" and "\<forall>i \<in> set g. i < length merged" and "\<forall>i \<in> set g. 0 < score_of merged i"
  shows "\<exists>p. first_best (map (score_of merged) g) p \<and>
             best_of_group merged g (0, - 1, 0) =
               Some (score_of merged (g ! p), int (g ! p), class_of merged (g ! p)) \<and>
             resolve_loop merged [g] [] = Some [merged ! (g ! p)]"
proof -
  from kept_index_first_best [OF assms] obtain p where
    p: "first_best (map (score_of merged) g) p"
    and b: "best_of_group merged g (0, - 1, 0) =
               Some (score_of merged (g ! p), int (g ! p), class_of merged (g ! p))"
    and k: "kept_index merged g = int (g ! p)" by blast
  have "resolve_loop merged [g] [] = Some [merged ! (g ! p)]"
    using resolve_loop_step [OF assms, of "[]" "[]"] k by simp
  with p b show ?thesis by blast
qed


lemma first_best_unique:
  assumes "first_best ss p" and "first_best ss q"
  shows "p = q"
proof (cases p q rule: linorder_cases)
  case less
  with assms have "ss ! p < ss ! q" "ss ! q \<le> ss ! p" by (auto simp: first_best_def)
  then show ?thesis by simp
next
  case greater
  with assms have "ss ! q < ss ! p" "ss ! p \<le> ss ! q" by (auto simp: first_best_def)
  then show ?thesis by simp
qed simp

theorem second_pass_ties_keep_first_witness:
  "[0, 1, 2 :: nat] \<noteq> [] \<and>
   list_all (\<lambda>i. i < length ([([[1]], 1, 1 / 2), ([[1]], 2, 9 / 10), ([[1]], 3, 9 / 10)] :: det_region list)) [0, 1, 2] \<and>
   list_all (\<lambda>i. 0 < score_of [([[1]], 1, 1 / 2), ([[1]], 2, 9 / 10), ([[1]], 3, 9 / 10)] i) [0, 1, 2] \<and>
   first_best (map (score_of [([[1]], 1, 1 / 2), ([[1]], 2, 9 / 10), ([[1]], 3, 9 / 10)]) [0, 1, 2]) 1 \<and>
   resolve_loop [([[1]], 1, 1 / 2), ([[1]], 2, 9 / 10), ([[1]], 3, 9 / 10)] [[0, 1, 2]] [] = Some [([[1]], 2, 9 / 10)]"
proof -
  let ?M = "[([[1]], 1, 1 / 2), ([[1]], 2, 9 / 10), ([[1]], 3, 9 / 10)] :: det_region list"
  have h1: "[0, 1, 2 :: nat] \<noteq> []" by simp
  have h2: "\<forall>i \<in> set [0, 1, 2 :: nat]. i < length ?M" by simp
  have h3: "\<forall>i \<in> set [0, 1, 2 :: nat]. 0 < score_of ?M i" by (simp add: score_of_def)
  have fb: "first_best (map (score_of ?M) [0, 1, 2]) 1"
    by (simp add: first_best_def score_of_def All_less_Suc)
  from second_pass_ties_keep_first [OF h1 h2 h3] obtain p where
    p: "first_best (map (score_of ?M) [0, 1, 2]) p"
    and r: "resolve_loop ?M [[0, 1, 2]] [] = Some [?M ! ([0, 1, 2] ! p)]" by blast
  from first_best_unique [OF p fb] have "p = 1" .
  with r have "resolve_loop ?M [[0, 1, 2]] [] = Some [([[1]], 2, 9 / 10)]" by simp
  with h1 h2 h3 fb show ?thesis by (simp add: list_all_iff)
qed



section \<open>Properties of the union of masks\<close>

lemma merge_pixels_commute: "merge_pixels a b = merge_pixels b a"
  by (simp add: merge_pixels_def Let_def add.commute)

lemma merge_pixels_assoc:
  "0 \<le> a \<Longrightarrow> 0 \<le> b \<Longrightarrow> 0 \<le> c \<Longrightarrow>
   merge_pixels (merge_pixels a b) c = merge_pixels a (merge_pixels b c)"
  by (simp add: merge_pixels_def Let_def)

lemma merge_pixels_right_commute:
  "0 \<le> b \<Longrightarrow> 0 \<le> c \<Longrightarrow>
   merge_pixels (merge_pixels a b) c = merge_pixels (merge_pixels a c) b"
  by (simp add: merge_pixels_def Let_def)

lemma map2_commute:
  assumes "\<And>a b. f a b = f b a"
  shows "map2 f xs ys = map2 f ys xs"
proof (induction xs arbitrary: ys)
  case Nil
  then show ?case by simp
next
  case (Cons x xs)
  then show ?case using assms by (cases ys) simp_all
qed

lemma map2_assoc:
  assumes "\<And>a b c. P a \<Longrightarrow> P b \<Longrightarrow> P c \<Longrightarrow> f (f a b) c = f a (f b c)"
    and "list_all P xs" and "list_all P ys" and "list_all P zs"
  shows "map2 f (map2 f xs ys) zs = map2 f xs (map2 f ys zs)"
  using assms(2-)
proof (induction xs arbitrary: ys zs)
  case Nil
  then show ?case by simp
next
  case (Cons x xs)
  show ?case
  proof (cases ys)
    case Nil
    then show ?thesis by simp
  next
    case ys: (Cons y ys')
    show ?thesis
    proof (cases zs)
      case Nil
      then show ?thesis by simp
    next
      case zs: (Cons z zs')
      show ?thesis using Cons ys zs assms(1) by simp
    qed
  qed
qed

lemma map2_right_commute:
  assumes "\<And>a b c. P b \<Longrightarrow> P c \<Longrightarrow> f (f a b) c = f (f a c) b"
    and "list_all P ys" and "list_all P zs"
  shows "map2 f (map2 f xs ys) zs = map2 f (map2 f xs zs) ys"
  using assms(2-)
proof (induction xs arbitrary: ys zs)
  case Nil
  then show ?case by simp
next
  case (Cons x xs)
  show ?case
  proof (cases ys)
    case Nil
    then show ?thesis by simp
  next
    case ys: (Cons y ys')
    show ?thesis
    proof (cases zs)
      case Nil
      then show ?thesis by simp
    next
      case zs: (Cons z zs')
      show ?thesis using Cons ys zs assms(1) by simp
    qed
  qed
qed

lemma merge_masks_commute: "merge_masks a b = merge_masks b a"
  unfolding merge_masks_def
  by (rule map2_commute) (rule map2_commute, rule merge_pixels_commute)

lemma merge_rows_assoc:
  "list_all (\<lambda>v. 0 \<le> v) r1 \<Longrightarrow> list_all (\<lambda>v. 0 \<le> v) r2 \<Longrightarrow> list_all (\<lambda>v. 0 \<le> v) r3 \<Longrightarrow>
   map2 merge_pixels (map2 merge_pixels r1 r2) r3 = map2 merge_pixels r1 (map2 merge_pixels r2 r3)"
  by (rule map2_assoc [where P = "\<lambda>v. 0 \<le> v"]) (simp_all add: merge_pixels_assoc)

lemma merge_masks_assoc:
  assumes "nonneg_mask a" and "nonneg_mask b" and "nonneg_mask c"
  shows "merge_masks (merge_masks a b) c = merge_masks a (merge_masks b c)"
  unfolding merge_masks_def
  by (rule map2_assoc [where P = "list_all (\<lambda>v. 0 \<le> v)"])
     (use assms in \<open>simp_all add: merge_rows_assoc nonneg_mask_def\<close>)

lemma merge_rows_right_commute:
  "list_all (\<lambda>v. 0 \<le> v) r2 \<Longrightarrow> list_all (\<lambda>v. 0 \<le> v) r3 \<Longrightarrow>
   map2 merge_pixels (map2 merge_pixels r1 r2) r3 = map2 merge_pixels (map2 merge_pixels r1 r3) r2"
  by (rule map2_right_commute [where P = "\<lambda>v. 0 \<le> v"]) (simp_all add: merge_pixels_right_commute)

lemma merge_masks_right_commute:
  assumes "nonneg_mask b" and "nonneg_mask c"
  shows "merge_masks (merge_masks a b) c = merge_masks (merge_masks a c) b"
  unfolding merge_masks_def
  by (rule map2_right_commute [where P = "list_all (\<lambda>v. 0 \<le> v)"])
     (use assms in \<open>simp_all add: merge_rows_right_commute nonneg_mask_def\<close>)

lemma binary_nonneg: "binary_mask m \<Longrightarrow> nonneg_mask m"
  unfolding binary_mask_def nonneg_mask_def list_all_iff by fastforce

lemma merge_zero_row:
  "list_all (\<lambda>v. v = 0 \<or> v = 1) r \<Longrightarrow> map2 merge_pixels (map (\<lambda>v. 0) r) r = r"
  by (induction r) (auto simp: merge_pixels_def)

lemma merge_zeros_like:
  "binary_mask m \<Longrightarrow> merge_masks (zeros_like m) m = m"
  unfolding binary_mask_def merge_masks_def zeros_like_def
  by (induction m) (simp_all add: merge_zero_row)

lemma zeros_like_same_shape:
  "same_shape a b \<Longrightarrow> zeros_like a = zeros_like b"
proof -
  have z: "zeros_like m = map (\<lambda>n. replicate n 0) (map length m)" for m
    by (simp add: zeros_like_def map_replicate_const)
  show "same_shape a b \<Longrightarrow> zeros_like a = zeros_like b"
    unfolding z same_shape_def by simp
qed

lemma merge_members_mask:
  assumes "\<forall>i \<in> set rest. i < length dets"
  shows "\<exists>c' s'. merge_members dets rest (m, c, s) =
           Some (fold (\<lambda>x acc. merge_masks acc x) (map (mask_of dets) rest) m, c', s')"
  using assms
proof (induction rest arbitrary: m c s)
  case Nil
  then show ?case by simp
next
  case (Cons index rest)
  then have idx: "index < length dets" and rest: "\<forall>i \<in> set rest. i < length dets" by simp_all
  obtain mi ci si where d: "dets ! index = (mi, ci, si)" by (cases "dets ! index") auto
  have "merge_members dets (index # rest) (m, c, s) =
          merge_members dets rest (merge_masks m mi, ci, s + si)"
    using idx d by (simp add: nth_opt_def)
  moreover have "mask_of dets index = mi" using d by (simp add: mask_of_def)
  ultimately show ?case using Cons.IH [OF rest, of "merge_masks m mi" ci "s + si"] by simp
qed

lemma merge_group_mask:
  assumes "g \<noteq> []" and "\<forall>i \<in> set g. i < length dets"
  shows "\<exists>c s. merge_group dets g =
           Some (fold (\<lambda>x acc. merge_masks acc x) (map (mask_of dets) (tl g)) (mask_of dets (hd g)), c, s)"
proof -
  from assms(1) obtain index rest where g: "g = index # rest" by (cases g) auto
  with assms(2) have idx: "index < length dets" and rest: "\<forall>i \<in> set rest. i < length dets" by simp_all
  obtain mi ci si where d: "dets ! index = (mi, ci, si)" by (cases "dets ! index") auto
  from merge_members_mask [OF rest, of mi ci "0 + si"] obtain c' s' where
    "merge_members dets rest (mi, ci, 0 + si) =
       Some (fold (\<lambda>x acc. merge_masks acc x) (map (mask_of dets) rest) mi, c', s')" by blast
  then show ?thesis using g idx d by (simp add: merge_group_def nth_opt_def mask_of_def)
qed

lemma fold_merge_from_zeros:
  assumes "ms \<noteq> []" and "binary_mask (hd ms)"
  shows "fold (\<lambda>x acc. merge_masks acc x) (tl ms) (hd ms) =
         fold (\<lambda>x acc. merge_masks acc x) ms (zeros_like (hd ms))"
  using assms by (cases ms) (simp_all add: merge_zeros_like)

lemma fold_merge_permuted:
  assumes "\<forall>m \<in> set ms. nonneg_mask m" and "mset ms = mset ms'"
  shows "fold (\<lambda>x acc. merge_masks acc x) ms z = fold (\<lambda>x acc. merge_masks acc x) ms' z"
proof -
  have "fold (\<lambda>x acc. merge_masks acc x) ms = fold (\<lambda>x acc. merge_masks acc x) ms'"
  proof (rule fold_multiset_equiv [OF _ assms(2)])
    fix x y assume "x \<in> set ms" "y \<in> set ms"
    with assms(1) have "nonneg_mask x" "nonneg_mask y" by blast+
    then show "(\<lambda>acc. merge_masks acc x) \<circ> (\<lambda>acc. merge_masks acc y) =
               (\<lambda>acc. merge_masks acc y) \<circ> (\<lambda>acc. merge_masks acc x)"
      by (auto simp: fun_eq_iff merge_masks_right_commute)
  qed
  then show ?thesis by simp
qed

text \<open>
  C9. On masks of zeros and ones of one shape, \<^verbatim>\<open>merge_masks\<close> is commutative and
  associative, and the mask that the merge loop builds for a group does not depend on
  the order of the members: two orders of the same members give the same merged mask
  (the class and the mean score that come with it are left open).
\<close>

theorem merge_masks_order_independent:
  assumes bin: "binary_mask a" "binary_mask b" "binary_mask c"
    and shp: "same_shape a b" "same_shape b c"
    and dets: "\<forall>r \<in> set dets. binary_mask (fst r) \<and> same_shape (fst r) a"
    and g: "g \<noteq> []" "\<forall>i \<in> set g. i < length dets" "mset g' = mset g"
  shows "merge_masks a b = merge_masks b a \<and>
         merge_masks (merge_masks a b) c = merge_masks a (merge_masks b c) \<and>
         (\<exists>m c1 s1 c2 s2. merge_group dets g = Some (m, c1, s1) \<and> merge_group dets g' = Some (m, c2, s2))"
proof -
  have g': "g' \<noteq> []" "\<forall>i \<in> set g'. i < length dets"
    using g by (auto dest: mset_eq_setD)
  let ?f = "\<lambda>x acc. merge_masks acc x"
  let ?ms = "map (mask_of dets) g" and ?ms' = "map (mask_of dets) g'"
  have mem: "mask_of dets i \<in> fst ` set dets" if "i \<in> set g \<or> i \<in> set g'" for i
    using that g(2) g'(2) by (auto simp: mask_of_def)
  have binm: "binary_mask (mask_of dets i)" and shpm: "same_shape (mask_of dets i) a"
    if "i \<in> set g \<or> i \<in> set g'" for i
    using mem [OF that] dets by auto
  have hd_g: "hd g \<in> set g" and hd_g': "hd g' \<in> set g'" using g(1) g'(1) by simp_all
  have z: "zeros_like (mask_of dets (hd g)) = zeros_like a" "zeros_like (mask_of dets (hd g')) = zeros_like a"
    using shpm hd_g hd_g' by (auto intro: zeros_like_same_shape)
  have m1: "fold ?f (map (mask_of dets) (tl g)) (mask_of dets (hd g)) = fold ?f ?ms (zeros_like a)"
    using fold_merge_from_zeros [of ?ms] g(1) binm [of "hd g"] hd_g z
    by (simp add: hd_map map_tl)
  have m2: "fold ?f (map (mask_of dets) (tl g')) (mask_of dets (hd g')) = fold ?f ?ms' (zeros_like a)"
    using fold_merge_from_zeros [of ?ms'] g'(1) binm [of "hd g'"] hd_g' z
    by (simp add: hd_map map_tl)
  have "\<forall>m \<in> set ?ms. nonneg_mask m" using binm by (auto intro: binary_nonneg)
  moreover have "mset ?ms = mset ?ms'" using g(3) by simp
  ultimately have eq: "fold ?f ?ms (zeros_like a) = fold ?f ?ms' (zeros_like a)"
    by (rule fold_merge_permuted)
  from merge_group_mask [OF g(1,2)] merge_group_mask [OF g'] m1 m2 eq
  have "\<exists>m c1 s1 c2 s2. merge_group dets g = Some (m, c1, s1) \<and> merge_group dets g' = Some (m, c2, s2)"
    by (metis (no_types, lifting))
  moreover have "merge_masks (merge_masks a b) c = merge_masks a (merge_masks b c)"
    using bin by (intro merge_masks_assoc binary_nonneg)
  ultimately show ?thesis using merge_masks_commute [of a b] by blast
qed

theorem merge_masks_order_independent_witness:
  "binary_mask [[1, 0, 0]] \<and> binary_mask [[0, 1, 0]] \<and> binary_mask [[0, 1, 1]] \<and>
   same_shape [[1, 0, 0 :: int]] [[0, 1, 0 :: int]] \<and> same_shape [[0, 1, 0 :: int]] [[0, 1, 1 :: int]] \<and>
   merge_masks (merge_masks [[1, 0, 0]] [[0, 1, 0]]) [[0, 1, 1]] = [[1, 1, 1]] \<and>
   merge_masks [[1, 0, 0]] (merge_masks [[0, 1, 0]] [[0, 1, 1]]) = [[1, 1, 1]] \<and>
   (\<exists>m c1 s1 c2 s2.
      merge_group [([[1, 0, 0]], 1, 9 / 10), ([[0, 1, 0]], 1, 8 / 10), ([[0, 1, 1]], 1, 7 / 10)] [0, 1, 2] =
        Some (m, c1, s1) \<and>
      merge_group [([[1, 0, 0]], 1, 9 / 10), ([[0, 1, 0]], 1, 8 / 10), ([[0, 1, 1]], 1, 7 / 10)] [2, 0, 1] =
        Some (m, c2, s2))"
proof -
  have b: "binary_mask [[1, 0, 0]]" "binary_mask [[0, 1, 0]]" "binary_mask [[0, 1, 1]]"
    by (simp_all add: binary_mask_def)
  have s: "same_shape [[1, 0, 0 :: int]] [[0, 1, 0 :: int]]" "same_shape [[0, 1, 0 :: int]] [[0, 1, 1 :: int]]"
    by (simp_all add: same_shape_def)
  have d: "\<forall>r \<in> set [([[1, 0, 0]], 1 :: int, 9 / 10 :: real), ([[0, 1, 0]], 1, 8 / 10), ([[0, 1, 1]], 1, 7 / 10)].
             binary_mask (fst r) \<and> same_shape (fst r) [[1, 0, 0 :: int]]"
    by (simp add: binary_mask_def same_shape_def)
  have g: "[0, 1, 2 :: nat] \<noteq> []"
    "\<forall>i \<in> set [0, 1, 2 :: nat]. i < length [([[1, 0, 0]], 1 :: int, 9 / 10 :: real), ([[0, 1, 0]], 1, 8 / 10), ([[0, 1, 1]], 1, 7 / 10)]"
    "mset [2, 0, 1 :: nat] = mset [0, 1, 2]"
    by simp_all
  have e: "merge_masks (merge_masks [[1, 0, 0]] [[0, 1, 0]]) [[0, 1, 1]] = [[1, 1, 1]]"
    by (simp add: merge_masks_def merge_pixels_def)
  from merge_masks_order_independent [OF b s d g] e b s show ?thesis by simp
qed

section \<open>Properties of the extraction of regions and boxes\<close>

text \<open>
  C1 (the code reads component \<open>1\<close> in every iteration). The raw ground-truth mask
  \<open>[[1, 0, 2]]\<close> has two components, labelled \<open>1\<close> and \<open>2\<close>. The loop of
  \<^verbatim>\<open>extract_gt_masks\<close> yields the mask of component \<open>1\<close> with class \<open>1\<close> twice; the binary
  mask of component \<open>2\<close> is \<open>[[0, 0, 1]]\<close> and is never extracted.
\<close>

theorem split_gt_mask_repeats_first_component:
  "split_gt_mask [[1, 0, 2]] = Some [([[1, 0, 0]], 1), ([[1, 0, 0]], 1)] \<and>
   extract_mask_connected_components [[1, 0, 2]] = ([[1, 0, 2]], 2) \<and>
   where_mask [[1, 0, 2]] 2 = [[0, 0, 1]]"
  by code_simp

text \<open>
  C3, as stated, fails. A detection of class \<^verbatim>\<open>galaxy_C2\<close> is not split into components, so
  a mask without any foreground pixel goes through both passes (here with the groups of
  a graph without edges) and is given a bounding box and a caption like any other.
\<close>

theorem empty_galaxy_mask_gets_a_box:
  "extract_det_masks (\<lambda>ss. map int [0..<length ss]) (\<lambda>n es. map (\<lambda>i. [i]) [0..<n])
     (\<lambda>m. (0::nat, 0::nat, 0::nat, 0::nat)) (\<lambda>label score. label @ '' 0.900'')
     [''bkg'', ''galaxy_C2''] (7 / 10) [([[0, 0]], 1, 9 / 10)] =
   Some \<lparr> masks_final = [([[0, 0]], 1, 9 / 10)], bboxes = [(0, 0, 0, 0)],
          captions = [''galaxy_C2 0.900''] \<rparr>"
  by (simp add: extract_det_masks_def py_nth_def py_index_def class_edges_def final_edges_def
      merge_group_def nth_opt_def mask_expanded_def)

lemma bbox_loop_spec:
  assumes "\<forall>r \<in> set final. py_nth class_names (fst (snd r)) \<noteq> None"
  shows "bbox_loop extract_bboxes format_caption class_names final (bs, cs) =
           Some (bs @ map (\<lambda>r. extract_bboxes (mask_expanded (fst r))) final,
                 cs @ map (\<lambda>r. format_caption (the (py_nth class_names (fst (snd r)))) (snd (snd r))) final)"
  using assms
proof (induction final arbitrary: bs cs)
  case Nil
  then show ?case by simp
next
  case (Cons r final)
  obtain m c s where r: "r = (m, c, s)" by (cases r) auto
  from Cons.prems r obtain label where l: "py_nth class_names c = Some label" by auto
  show ?case using Cons r l by (simp add: Let_def)
qed

lemma bbox_loop_gt_spec:
  assumes "\<forall>r \<in> set merged. py_nth class_names (snd r) \<noteq> None"
  shows "bbox_loop_gt extract_bboxes class_names merged (bs, cs) =
           Some (bs @ map (\<lambda>r. extract_bboxes (mask_expanded (fst r))) merged,
                 cs @ map (\<lambda>r. the (py_nth class_names (snd r))) merged)"
  using assms
proof (induction merged arbitrary: bs cs)
  case Nil
  then show ?case by simp
next
  case (Cons r merged)
  obtain m c where r: "r = (m, c)" by (cases r) auto
  from Cons.prems r obtain label where l: "py_nth class_names c = Some label" by auto
  show ?case using Cons r l by (simp add: Let_def)
qed

text \<open>
  C3, amended. The loops that compute the bounding boxes have no guard: when the class
  ids have a name, every final detection instance and every merged ground-truth instance
  gets one box and one caption, whatever its mask holds, and the box is what
  \<^verbatim>\<open>extract_bboxes\<close> returns for that mask.
\<close>

theorem every_instance_gets_a_box:
  assumes "\<forall>r \<in> set final. py_nth class_names (fst (snd r)) \<noteq> None"
    and "\<forall>r \<in> set merged_gt. py_nth class_names (snd r) \<noteq> None"
  shows "(\<exists>bs cs. bbox_loop extract_bboxes format_caption class_names final ([], []) = Some (bs, cs) \<and>
            length bs = length final \<and> length cs = length final \<and>
            (\<forall>k < length final. bs ! k = extract_bboxes (mask_expanded (fst (final ! k))))) \<and>
         (\<exists>bs cs. bbox_loop_gt extract_bboxes class_names merged_gt ([], []) = Some (bs, cs) \<and>
            length bs = length merged_gt \<and> length cs = length merged_gt \<and>
            (\<forall>k < length merged_gt. bs ! k = extract_bboxes (mask_expanded (fst (merged_gt ! k)))))"
  using bbox_loop_spec [OF assms(1), of extract_bboxes format_caption "[]" "[]"]
    bbox_loop_gt_spec [OF assms(2), of extract_bboxes "[]" "[]"]
  by simp

theorem every_instance_gets_a_box_witness:
  "list_all (\<lambda>r. py_nth [''bkg'', ''galaxy_C2''] (fst (snd r)) \<noteq> None) [([[0, 0]], 1 :: int, 9 / 10 :: real)] \<and>
   list_all (\<lambda>r. py_nth [''bkg'', ''galaxy_C2''] (snd r) \<noteq> None) [([[0, 0]], 1 :: int)] \<and>
   (\<exists>bs cs. bbox_loop (\<lambda>m. (0::nat, 0::nat, 0::nat, 0::nat)) (\<lambda>label score. label)
               [''bkg'', ''galaxy_C2''] [([[0, 0]], 1, 9 / 10)] ([], []) = Some (bs, cs) \<and>
             length bs = 1 \<and> length cs = 1) \<and>
   (\<exists>bs cs. bbox_loop_gt (\<lambda>m. (0::nat, 0::nat, 0::nat, 0::nat))
               [''bkg'', ''galaxy_C2''] [([[0, 0]], 1)] ([], []) = Some (bs, cs) \<and>
             length bs = 1 \<and> length cs = 1)"
proof -
  have h1: "\<forall>r \<in> set [([[0, 0]], 1 :: int, 9 / 10 :: real)]. py_nth [''bkg'', ''galaxy_C2''] (fst (snd r)) \<noteq> None"
    by (simp add: py_nth_def py_index_def)
  have h2: "\<forall>r \<in> set [([[0, 0]], 1 :: int)]. py_nth [''bkg'', ''galaxy_C2''] (snd r) \<noteq> None"
    by (simp add: py_nth_def py_index_def)
  from every_instance_gets_a_box [OF h1 h2,
      of "\<lambda>m. (0::nat, 0::nat, 0::nat, 0::nat)" "\<lambda>label score. label"] h1 h2
  show ?thesis by (simp del: bbox_loop.simps bbox_loop_gt.simps) blast
qed

section \<open>Properties of the touching test\<close>

subsection \<open>Classes of a symmetric relation\<close>

lemma rtrancl_class_eq:
  assumes "sym R" and "(p, q) \<in> R\<^sup>*"
  shows "R\<^sup>* `` {q} = R\<^sup>* `` {p}"
proof -
  from assms have qp: "(q, p) \<in> R\<^sup>*" by (meson sym_rtrancl symD)
  show ?thesis
  proof (rule set_eqI)
    fix x
    show "x \<in> R\<^sup>* `` {q} \<longleftrightarrow> x \<in> R\<^sup>* `` {p}"
      using assms(2) qp by (auto intro: rtrancl_trans)
  qed
qed

lemma classes_card_mono:
  assumes "sym S" and "R \<subseteq> S" and "finite A"
  shows "card ((\<lambda>p. S\<^sup>* `` {p}) ` A) \<le> card ((\<lambda>p. R\<^sup>* `` {p}) ` A)"
proof -
  define h where "h C = \<Union> ((\<lambda>q. S\<^sup>* `` {q}) ` C)" for C
  have "h (R\<^sup>* `` {p}) = S\<^sup>* `` {p}" for p
  proof -
    have "S\<^sup>* `` {q} = S\<^sup>* `` {p}" if "q \<in> R\<^sup>* `` {p}" for q
    proof -
      from that have "(p, q) \<in> R\<^sup>*" by simp
      then have "(p, q) \<in> S\<^sup>*" using assms(2) rtrancl_mono by blast
      then show ?thesis by (rule rtrancl_class_eq [OF assms(1)])
    qed
    moreover have "p \<in> R\<^sup>* `` {p}" by simp
    ultimately show ?thesis unfolding h_def by blast
  qed
  then have "(\<lambda>p. S\<^sup>* `` {p}) ` A = h ` ((\<lambda>p. R\<^sup>* `` {p}) ` A)"
    by (simp add: image_image)
  moreover have "card (h ` ((\<lambda>p. R\<^sup>* `` {p}) ` A)) \<le> card ((\<lambda>p. R\<^sup>* `` {p}) ` A)"
    using assms(3) by (intro card_image_le) simp
  ultimately show ?thesis by simp
qed

lemma rtrancl_Un_separate:
  assumes "R \<subseteq> A \<times> A" and "S \<subseteq> B \<times> B" and "A \<inter> B = {}" and "p \<in> A"
  shows "(R \<union> S)\<^sup>* `` {p} = R\<^sup>* `` {p}"
proof -
  have "q \<in> A \<and> (p, q) \<in> R\<^sup>*" if "(p, q) \<in> (R \<union> S)\<^sup>*" for q
    using that
  proof (induction rule: rtrancl_induct)
    case base
    then show ?case using assms(4) by simp
  next
    case (step y z)
    then have y: "y \<in> A" and py: "(p, y) \<in> R\<^sup>*" by simp_all
    from step(2) have "(y, z) \<in> R"
    proof
      assume "(y, z) \<in> S"
      with assms(2) have "y \<in> B" by blast
      with y assms(3) show ?thesis by blast
    qed
    with assms(1) py show ?case by (auto intro: rtrancl_into_rtrancl)
  qed
  moreover have "R\<^sup>* \<subseteq> (R \<union> S)\<^sup>*" by (rule rtrancl_mono) simp
  ultimately show ?thesis by blast
qed

lemma rtrancl_class_subset:
  assumes "R \<subseteq> A \<times> A" and "p \<in> A"
  shows "R\<^sup>* `` {p} \<subseteq> A"
proof
  fix q assume "q \<in> R\<^sup>* `` {p}"
  then have "(p, q) \<in> R\<^sup>*" by simp
  then show "q \<in> A"
    using assms by (induction rule: rtrancl_induct) auto
qed

subsection \<open>Pixels, foreground and links of a union\<close>

lemma in_pixels: "p \<in> set (pixels m) \<longleftrightarrow> fst p < length m \<and> snd p < length (m ! fst p)"
  by (cases p) (force simp: pixels_def)

lemma same_shape_lengths:
  assumes "same_shape a b"
  shows "length a = length b" and "r < length a \<Longrightarrow> length (a ! r) = length (b ! r)"
proof -
  from assms have eq: "map length a = map length b" by (simp add: same_shape_def)
  then show len: "length a = length b" by (rule map_eq_imp_length_eq)
  assume "r < length a"
  then have "map length a ! r = length (a ! r)" "map length b ! r = length (b ! r)"
    using len by simp_all
  with eq show "length (a ! r) = length (b ! r)" by simp
qed

lemma merge_masks_length: "same_shape a b \<Longrightarrow> length (merge_masks a b) = length a"
  by (simp add: merge_masks_def same_shape_lengths(1))

lemma merge_masks_row:
  assumes "same_shape a b" and "r < length a"
  shows "merge_masks a b ! r = map2 merge_pixels (a ! r) (b ! r)"
  using assms same_shape_lengths(1) [OF assms(1)] by (simp add: merge_masks_def)

lemma pixels_merge:
  assumes "same_shape a b"
  shows "p \<in> set (pixels (merge_masks a b)) \<longleftrightarrow> p \<in> set (pixels a)"
    and "p \<in> set (pixels b) \<longleftrightarrow> p \<in> set (pixels a)"
proof -
  show "p \<in> set (pixels (merge_masks a b)) \<longleftrightarrow> p \<in> set (pixels a)"
    unfolding in_pixels merge_masks_length [OF assms]
    using merge_masks_row [OF assms] same_shape_lengths(2) [OF assms]
    by auto
  show "p \<in> set (pixels b) \<longleftrightarrow> p \<in> set (pixels a)"
    unfolding in_pixels using same_shape_lengths [OF assms] by auto
qed

lemma pix_merge:
  assumes "same_shape a b" and "p \<in> set (pixels a)"
  shows "pix (merge_masks a b) p = merge_pixels (pix a p) (pix b p)"
proof -
  from assms(2) have r: "fst p < length a" and c: "snd p < length (a ! fst p)"
    by (simp_all add: in_pixels)
  from same_shape_lengths(2) [OF assms(1) r] c have c': "snd p < length (b ! fst p)" by simp
  show ?thesis
    unfolding pix_def merge_masks_row [OF assms(1) r] using c c' by simp
qed

lemma pix_nonneg:
  assumes "nonneg_mask m" and "p \<in> set (pixels m)"
  shows "0 \<le> pix m p"
proof -
  from assms(2) have r: "fst p < length m" and c: "snd p < length (m ! fst p)"
    by (simp_all add: in_pixels)
  from assms(1) r have "list_all (\<lambda>v. 0 \<le> v) (m ! fst p)"
    by (simp add: nonneg_mask_def list_all_length)
  with c show ?thesis by (simp add: pix_def list_all_length)
qed

lemma pix_binary:
  assumes "binary_mask m" and "p \<in> set (pixels m)"
  shows "pix m p = 0 \<or> pix m p = 1"
proof -
  from assms(2) have r: "fst p < length m" and c: "snd p < length (m ! fst p)"
    by (simp_all add: in_pixels)
  from assms(1) r have "list_all (\<lambda>v. v = 0 \<or> v = 1) (m ! fst p)"
    by (simp add: binary_mask_def list_all_length)
  with c show ?thesis by (simp add: pix_def list_all_length)
qed

lemma in_foreground: "p \<in> set (foreground m) \<longleftrightarrow> p \<in> set (pixels m) \<and> pix m p \<noteq> 0"
  by (simp add: foreground_def)

lemma merge_pixels_fg:
  assumes "0 \<le> x" and "0 \<le> y"
  shows "merge_pixels x y \<noteq> 0 \<longleftrightarrow> x \<noteq> 0 \<or> y \<noteq> 0"
    and "merge_pixels x y \<noteq> 0 \<Longrightarrow> merge_pixels x y = 1"
  using assms by (auto simp: merge_pixels_def Let_def)

lemma foreground_merge:
  assumes "same_shape a b" and "nonneg_mask a" and "nonneg_mask b"
  shows "set (foreground (merge_masks a b)) = set (foreground a) \<union> set (foreground b)"
proof (rule set_eqI)
  fix p
  show "p \<in> set (foreground (merge_masks a b)) \<longleftrightarrow> p \<in> set (foreground a) \<union> set (foreground b)"
  proof (cases "p \<in> set (pixels a)")
    case True
    then have pb: "p \<in> set (pixels b)" using pixels_merge(2) [OF assms(1)] by simp
    have "0 \<le> pix a p" "0 \<le> pix b p"
      using pix_nonneg assms True pb by simp_all
    then show ?thesis
      using True pb pixels_merge(1) [OF assms(1), of p] pix_merge [OF assms(1) True]
      by (simp add: in_foreground merge_pixels_fg(1))
  next
    case False
    then show ?thesis
      using pixels_merge [OF assms(1), of p] by (simp add: in_foreground)
  qed
qed

lemma foreground_merge_one:
  assumes "same_shape a b" and "nonneg_mask a" and "nonneg_mask b"
    and "p \<in> set (foreground (merge_masks a b))"
  shows "pix (merge_masks a b) p = 1"
proof -
  from assms(4) have pa: "p \<in> set (pixels a)" and nz: "pix (merge_masks a b) p \<noteq> 0"
    using pixels_merge(1) [OF assms(1), of p] by (simp_all add: in_foreground)
  then have pb: "p \<in> set (pixels b)" using pixels_merge(2) [OF assms(1)] by simp
  have "0 \<le> pix a p" "0 \<le> pix b p" using pix_nonneg assms(2,3) pa pb by simp_all
  then show ?thesis using nz pix_merge [OF assms(1) pa] merge_pixels_fg(2) by simp
qed

lemma in_links:
  "(p, q) \<in> set (links m) \<longleftrightarrow>
     p \<in> set (foreground m) \<and> q \<in> set (foreground m) \<and> adjacent p q \<and> pix m p = pix m q"
  by (auto simp: links_def)

lemma adjacent_sym: "adjacent p q \<Longrightarrow> adjacent q p"
  by (auto simp: adjacent_def)

lemma links_sym: "sym (set (links m))"
  by (rule symI) (auto simp: in_links adjacent_sym)

lemma links_subset: "set (links m) \<subseteq> set (foreground m) \<times> set (foreground m)"
  by (auto simp: in_links)

lemma region_rtrancl: "region m p = (set (links m))\<^sup>* `` {p}"
  unfolding region_def by (auto simp: rtrancl_eq_or_trancl)

lemma num_components_card: "num_components m = card (region m ` set (foreground m))"
  by (simp add: num_components_def regions_def length_remdups_card_conv)

subsection \<open>Counting the components of a union\<close>

lemma links_merge_mono:
  assumes "same_shape a b" and "nonneg_mask a" and "nonneg_mask b"
  shows "set (links a) \<subseteq> set (links (merge_masks a b))"
    and "set (links b) \<subseteq> set (links (merge_masks a b))"
proof -
  have one: "pix (merge_masks a b) p = 1" if "p \<in> set (foreground a) \<union> set (foreground b)" for p
    using that foreground_merge [OF assms] foreground_merge_one [OF assms] by simp
  show "set (links a) \<subseteq> set (links (merge_masks a b))"
    using one by (auto simp: in_links foreground_merge [OF assms])
  show "set (links b) \<subseteq> set (links (merge_masks a b))"
    using one by (auto simp: in_links foreground_merge [OF assms])
qed

lemma num_components_merge_le:
  assumes "same_shape a b" and "nonneg_mask a" and "nonneg_mask b"
  shows "num_components (merge_masks a b) \<le> num_components a + num_components b"
proof -
  let ?u = "merge_masks a b"
  let ?A = "set (foreground a)" and ?B = "set (foreground b)"
  have "region ?u ` set (foreground ?u) = region ?u ` ?A \<union> region ?u ` ?B"
    by (simp add: foreground_merge [OF assms] image_Un)
  then have "num_components ?u \<le> card (region ?u ` ?A) + card (region ?u ` ?B)"
    by (simp add: num_components_card card_Un_le)
  moreover have "card (region ?u ` ?A) \<le> card (region a ` ?A)"
    using classes_card_mono [OF links_sym links_merge_mono(1) [OF assms], of ?A]
    by (simp add: region_rtrancl [abs_def])
  moreover have "card (region ?u ` ?B) \<le> card (region b ` ?B)"
    using classes_card_mono [OF links_sym links_merge_mono(2) [OF assms], of ?B]
    by (simp add: region_rtrancl [abs_def])
  ultimately show ?thesis by (simp add: num_components_card)
qed

lemma apart_iff:
  "apart a b \<longleftrightarrow> (\<forall>p \<in> set (foreground a). \<forall>q \<in> set (foreground b). p \<noteq> q \<and> \<not> adjacent p q)"
  by (simp add: apart_def list_all_iff)

lemma links_merge_apart:
  assumes "same_shape a b" and "binary_mask a" and "binary_mask b" and "apart a b"
  shows "set (links (merge_masks a b)) = set (links a) \<union> set (links b)"
proof
  have nn: "nonneg_mask a" "nonneg_mask b" using assms(2,3) by (simp_all add: binary_nonneg)
  show "set (links a) \<union> set (links b) \<subseteq> set (links (merge_masks a b))"
    using links_merge_mono [OF assms(1) nn] by simp
  have fg1: "pix m p = 1" if "binary_mask m" "p \<in> set (foreground m)" for m p
    using that pix_binary [of m p] by (auto simp: in_foreground)
  show "set (links (merge_masks a b)) \<subseteq> set (links a) \<union> set (links b)"
  proof
    fix e assume e: "e \<in> set (links (merge_masks a b))"
    obtain p q where pq: "e = (p, q)" by (cases e)
    from e pq have p: "p \<in> set (foreground a) \<union> set (foreground b)"
      and q: "q \<in> set (foreground a) \<union> set (foreground b)" and adj: "adjacent p q"
      by (simp_all add: in_links foreground_merge [OF assms(1) nn])
    from p show "e \<in> set (links a) \<union> set (links b)"
    proof
      assume pa: "p \<in> set (foreground a)"
      with assms(4) adj have "q \<notin> set (foreground b)" by (auto simp: apart_iff)
      with q have qa: "q \<in> set (foreground a)" by simp
      then show ?thesis
        using pa adj pq fg1 [OF assms(2)] by (simp add: in_links)
    next
      assume pb: "p \<in> set (foreground b)"
      with assms(4) adjacent_sym [OF adj] have "q \<notin> set (foreground a)" by (auto simp: apart_iff)
      with q have qb: "q \<in> set (foreground b)" by simp
      then show ?thesis
        using pb adj pq fg1 [OF assms(3)] by (simp add: in_links)
    qed
  qed
qed

lemma num_components_apart:
  assumes "same_shape a b" and "binary_mask a" and "binary_mask b" and "apart a b"
  shows "num_components (merge_masks a b) = num_components a + num_components b"
proof -
  let ?u = "merge_masks a b"
  let ?A = "set (foreground a)" and ?B = "set (foreground b)"
  have nn: "nonneg_mask a" "nonneg_mask b" using assms(2,3) by (simp_all add: binary_nonneg)
  have disj: "?A \<inter> ?B = {}" using assms(4) by (auto simp: apart_iff)
  have lu: "set (links ?u) = set (links a) \<union> set (links b)"
    by (rule links_merge_apart [OF assms])
  have ra: "region ?u p = region a p" if "p \<in> ?A" for p
    unfolding region_rtrancl lu
    by (rule rtrancl_Un_separate [OF links_subset links_subset disj that])
  have rb: "region ?u p = region b p" if "p \<in> ?B" for p
  proof -
    have "?B \<inter> ?A = {}" using disj by blast
    from rtrancl_Un_separate [OF links_subset links_subset this that]
    show ?thesis unfolding region_rtrancl lu by (simp add: Un_commute)
  qed
  have "region ?u ` set (foreground ?u) = region a ` ?A \<union> region b ` ?B"
    using ra rb by (simp add: foreground_merge [OF assms(1) nn] image_Un)
  moreover have "region a ` ?A \<inter> region b ` ?B = {}"
  proof (rule ccontr)
    assume "region a ` ?A \<inter> region b ` ?B \<noteq> {}"
    then obtain p q where p: "p \<in> ?A" and q: "q \<in> ?B" and eq: "region a p = region b q"
      by auto
    have "p \<in> region a p" by (simp add: region_def)
    moreover have "region b q \<subseteq> ?B"
      unfolding region_rtrancl by (rule rtrancl_class_subset [OF links_subset q])
    ultimately have "p \<in> ?B" using eq by auto
    with p disj show False by blast
  qed
  ultimately show ?thesis
    by (simp add: num_components_card card_Un_disjoint)
qed

text \<open>
  C4. For two masks of one shape with no negative value, \<^verbatim>\<open>are_mask_connected\<close> is true
  exactly when the union has fewer components than the two masks have together; when
  the counts are equal it is false; and for two masks of zeros and ones that are apart
  (no common foreground pixel, no foreground pixel of one next to one of the other) the
  union has exactly the sum of the two counts, so the test is false.
\<close>

theorem touching_iff_fewer_components:
  assumes "same_shape a b" and "nonneg_mask a" and "nonneg_mask b"
  shows "(are_mask_connected a b \<longleftrightarrow>
            num_components (merge_masks a b) < num_components a + num_components b) \<and>
         (num_components (merge_masks a b) = num_components a + num_components b \<longrightarrow>
            \<not> are_mask_connected a b) \<and>
         (binary_mask a \<and> binary_mask b \<and> apart a b \<longrightarrow>
            num_components (merge_masks a b) = num_components a + num_components b \<and>
            \<not> are_mask_connected a b)"
proof -
  have c: "are_mask_connected a b \<longleftrightarrow>
             num_components (merge_masks a b) \<noteq> num_components a + num_components b"
    by (simp add: are_mask_connected_def extract_mask_connected_components_def Let_def)
  from num_components_merge_le [OF assms] num_components_apart [OF assms(1)] c
  show ?thesis by auto
qed

theorem touching_iff_fewer_components_witness:
  "same_shape [[1, 0, 0 :: int]] [[0, 0, 1 :: int]] \<and>
   binary_mask [[1, 0, 0]] \<and> binary_mask [[0, 0, 1]] \<and> apart [[1, 0, 0]] [[0, 0, 1]] \<and>
   num_components (merge_masks [[1, 0, 0]] [[0, 0, 1]]) =
     num_components [[1, 0, 0]] + num_components [[0, 0, 1]] \<and>
   \<not> are_mask_connected [[1, 0, 0]] [[0, 0, 1]] \<and>
   same_shape [[1, 0, 0 :: int]] [[0, 1, 0 :: int]] \<and>
   num_components (merge_masks [[1, 0, 0]] [[0, 1, 0]]) <
     num_components [[1, 0, 0]] + num_components [[0, 1, 0]] \<and>
   are_mask_connected [[1, 0, 0]] [[0, 1, 0]]"
proof -
  have s: "same_shape [[1, 0, 0 :: int]] [[0, 0, 1 :: int]]" "same_shape [[1, 0, 0 :: int]] [[0, 1, 0 :: int]]"
    by (simp_all add: same_shape_def)
  have b: "binary_mask [[1, 0, 0]]" "binary_mask [[0, 0, 1]]" "binary_mask [[0, 1, 0]]"
    by (simp_all add: binary_mask_def)
  have n: "nonneg_mask [[1, 0, 0]]" "nonneg_mask [[0, 0, 1]]" "nonneg_mask [[0, 1, 0]]"
    by (simp_all add: nonneg_mask_def)
  have ap: "apart [[1, 0, 0]] [[0, 0, 1]]"
    by code_simp
  have lt: "num_components (merge_masks [[1, 0, 0]] [[0, 1, 0]]) <
     num_components [[1, 0, 0]] + num_components [[0, 1, 0]]"
    by code_simp
  from touching_iff_fewer_components [OF s(1) n(1) n(2)] b ap
  have "num_components (merge_masks [[1, 0, 0]] [[0, 0, 1]]) =
     num_components [[1, 0, 0]] + num_components [[0, 0, 1]] \<and>
   \<not> are_mask_connected [[1, 0, 0]] [[0, 0, 1]]" by blast
  moreover from touching_iff_fewer_components [OF s(2) n(1) n(3)] lt
  have "are_mask_connected [[1, 0, 0]] [[0, 1, 0]]" by blast
  ultimately show ?thesis using s b ap lt by blast
qed

end
